theory Spec2Isabelle
  imports Main "HOL-Library.Monad_Syntax" "HOL-Library.Multiset"
begin

section \<open>Constants of \<^verbatim>\<open>game.py\<close>\<close>

definition COLS :: int where "COLS = 10"
definition ROWS :: int where "ROWS = 20"

definition BASE_FALL_MS :: int where "BASE_FALL_MS = 800"
definition SOFT_DROP_MS :: int where "SOFT_DROP_MS = 40"
definition LOCK_DELAY_MS :: int where "LOCK_DELAY_MS = 500"
definition SOFT_DROP_SCORE :: int where "SOFT_DROP_SCORE = 1"
definition HARD_DROP_SCORE :: int where "HARD_DROP_SCORE = 2"

text \<open>\<^verbatim>\<open>SCORES = {0: 0, 1: 100, 2: 300, 3: 500, 4: 800}\<close>, a dict read with
  \<^verbatim>\<open>SCORES.get(cleared, 0)\<close>.\<close>

definition SCORES :: "int \<rightharpoonup> int" where
  "SCORES = [0 \<mapsto> 0, 1 \<mapsto> 100, 2 \<mapsto> 300, 3 \<mapsto> 500, 4 \<mapsto> 800]"

definition SCORES_get :: "int \<Rightarrow> int \<Rightarrow> int" where
  "SCORES_get k d = (case SCORES k of None \<Rightarrow> d | Some v \<Rightarrow> v)"

section \<open>Python list subscripts\<close>

text \<open>\<^verbatim>\<open>xs[i]\<close> and \<^verbatim>\<open>xs[i] = v\<close>: a negative index counts from the end, and an
  index outside \<open>[-len, len)\<close> raises IndexError, which is the value \<open>None\<close>.\<close>

definition py_index :: "'a list \<Rightarrow> int \<Rightarrow> nat option" where
  "py_index xs i =
     (let n = int (length xs) in
      if 0 \<le> i \<and> i < n then Some (nat i)
      else if - n \<le> i \<and> i < 0 then Some (nat (i + n))
      else None)"

definition py_get :: "'a list \<Rightarrow> int \<Rightarrow> 'a option" where
  "py_get xs i = (case py_index xs i of None \<Rightarrow> None | Some j \<Rightarrow> Some (xs ! j))"

definition py_set :: "'a list \<Rightarrow> int \<Rightarrow> 'a \<Rightarrow> 'a list option" where
  "py_set xs i v = (case py_index xs i of None \<Rightarrow> None | Some j \<Rightarrow> Some (xs[j := v]))"

section \<open>Tetromino tables\<close>

text \<open>The piece kinds, the keys \<^verbatim>\<open>"I"\<close>, \<^verbatim>\<open>"J"\<close>, ... of the dicts.\<close>

datatype kind = KI | KJ | KL | KO | KS | KT | KZ

type_synonym matrix = "int list list"

text \<open>The dict \<^verbatim>\<open>SHAPES\<close>: for each kind the list of rotation states written out in
  the source (two for I, one for every other kind).\<close>

fun SHAPES :: "kind \<Rightarrow> matrix list" where
  "SHAPES KI = [[[0,0,0,0],
                [1,1,1,1],
                [0,0,0,0],
                [0,0,0,0]],
               [[0,0,1,0],
                [0,0,1,0],
                [0,0,1,0],
                [0,0,1,0]]]"
| "SHAPES KJ = [[[1,0,0],
                [1,1,1],
                [0,0,0]]]"
| "SHAPES KL = [[[0,0,1],
                [1,1,1],
                [0,0,0]]]"
| "SHAPES KO = [[[1,1],
                [1,1]]]"
| "SHAPES KS = [[[0,1,1],
                [1,1,0],
                [0,0,0]]]"
| "SHAPES KT = [[[0,1,0],
                [1,1,1],
                [0,0,0]]]"
| "SHAPES KZ = [[[1,1,0],
                [0,1,1],
                [0,0,0]]]"

text \<open>\<^verbatim>\<open>[list(r) for r in zip(*current[::-1])]\<close>: the rows reversed, then columns read
  as rows. Python's \<open>zip\<close> stops at the shortest row; every matrix of \<open>SHAPES\<close> is
  square, where that is the transpose.\<close>

definition rotate_cw :: "matrix \<Rightarrow> matrix" where
  "rotate_cw m = transpose (rev m)"

text \<open>The de-duplication loop \<^verbatim>\<open>for r in rots: if r not in uniq: uniq.append(r)\<close>:
  the first occurrence of each element is kept, in order.\<close>

definition uniq :: "'a list \<Rightarrow> 'a list" where
  "uniq rs = foldl (\<lambda>u r. if r \<in> set u then u else u @ [r]) [] rs"

definition rotations_from_matrix :: "matrix \<Rightarrow> matrix list" where
  "rotations_from_matrix mat =
     (let r0 = mat; r1 = rotate_cw r0; r2 = rotate_cw r1; r3 = rotate_cw r2
      in uniq [r0, r1, r2, r3])"

definition PIECES :: "kind \<Rightarrow> matrix list" where
  "PIECES k =
     (let v = SHAPES k in
      if length v > 1 then uniq (concat (map rotations_from_matrix v))
      else rotations_from_matrix (v ! 0))"

text \<open>\<^verbatim>\<open>PIECE_KEYS = list(PIECES.keys())\<close>, in the insertion order of the dict.\<close>

definition PIECE_KEYS :: "kind list" where
  "PIECE_KEYS = [KI, KJ, KL, KO, KS, KT, KZ]"

section \<open>The floating-point expression of the fall interval\<close>

text \<open>\<^verbatim>\<open>int(BASE_FALL_MS * (LEVEL_SPEEDUP ** self.level))\<close> is computed in binary64.
  A double is the pair \<open>(m, e)\<close> of integers that stands for \<open>m * 2^e\<close>; an exact
  positive quotient \<open>a / b\<close> is rounded to 53 significant bits, to nearest, ties to even
  (\<open>round_ratio\<close>). The literal \<open>0.85\<close> and the product are correctly rounded by
  IEEE 754; the power is taken as correctly rounded as well (C's \<open>pow\<close>; exact for
  the exponents 0 and 1). The exponent range is not modelled: an underflow truncates to 0
  either way, and the OverflowError that Python's power raises for a level below -4367 is
  absent (the level is never negative).\<close>

type_synonym dbl = "int \<times> int"

fun bit_length :: "nat \<Rightarrow> nat" where
  "bit_length n = (if n = 0 then 0 else Suc (bit_length (n div 2)))"

declare bit_length.simps [simp del]

definition round_ratio :: "int \<Rightarrow> int \<Rightarrow> dbl" where
  "round_ratio a b =
     (let e0 = int (bit_length (nat a)) - int (bit_length (nat b)) - 53;
          q0 = (if e0 \<ge> 0 then a div (b * 2 ^ nat e0) else (a * 2 ^ nat (- e0)) div b);
          e = (if q0 \<ge> 2 ^ 53 then e0 + 1 else e0);
          num = (if e \<ge> 0 then a else a * 2 ^ nat (- e));
          den = (if e \<ge> 0 then b * 2 ^ nat e else b);
          f = num div den;
          r = num mod den;
          n = (if 2 * r > den \<or> (2 * r = den \<and> odd f) then f + 1 else f)
      in (n, e))"

definition dbl_of_int :: "int \<Rightarrow> dbl" where
  "dbl_of_int i = (i, 0)"

definition dbl_mul :: "dbl \<Rightarrow> dbl \<Rightarrow> dbl" where
  "dbl_mul u v =
     (let (n, e) = round_ratio (fst u * fst v) 1 in (n, e + snd u + snd v))"

definition dbl_pow :: "dbl \<Rightarrow> int \<Rightarrow> dbl" where
  "dbl_pow u k =
     (if 0 \<le> k
      then (let (n, e) = round_ratio (fst u ^ nat k) 1 in (n, e + snd u * k))
      else (let (n, e) = round_ratio 1 (fst u ^ nat (- k)) in (n, e + snd u * k)))"

text \<open>\<^verbatim>\<open>int(f)\<close> of a non-negative double: truncation.\<close>

definition dbl_trunc :: "dbl \<Rightarrow> int" where
  "dbl_trunc u = (if 0 \<le> snd u then fst u * 2 ^ nat (snd u) else fst u div 2 ^ nat (- snd u))"

definition LEVEL_SPEEDUP :: dbl where
  "LEVEL_SPEEDUP = round_ratio 85 100"

text \<open>\<^verbatim>\<open>max(80, int(BASE_FALL_MS * (LEVEL_SPEEDUP ** self.level)))\<close>\<close>

definition fall_interval :: "int \<Rightarrow> int" where
  "fall_interval lvl =
     max 80 (dbl_trunc (dbl_mul (dbl_of_int BASE_FALL_MS) (dbl_pow LEVEL_SPEEDUP lvl)))"

section \<open>Pieces\<close>

text \<open>The class \<^verbatim>\<open>Piece\<close>. The fields \<open>px\<close> and \<open>py\<close> are the attributes
  \<^verbatim>\<open>x\<close> and \<^verbatim>\<open>y\<close>.\<close>

record piece =
  kind :: kind
  rot_index :: int
  shape_list :: "matrix list"
  shape :: matrix
  px :: int
  py :: int

text \<open>\<^verbatim>\<open>Piece.__init__\<close>. The two subscripts \<^verbatim>\<open>shape_list[0]\<close> and
  \<^verbatim>\<open>shape[0]\<close> are in range for each of the seven kinds (lemma
  \<open>PIECES_first\<close> below).\<close>

definition Piece :: "kind \<Rightarrow> piece" where
  "Piece k =
     (let sl = PIECES k;
          sh = sl ! 0;
          width = int (length (sh ! 0))
      in \<lparr>kind = k, rot_index = 0, shape_list = sl, shape = sh,
          px = COLS div 2 - width div 2,
          py = - (int (length sh) - 1)\<rparr>)"

text \<open>\<^verbatim>\<open>Piece.rotate\<close>: \<open>%\<close> by an empty \<open>shape_list\<close> raises ZeroDivisionError.\<close>

definition rotate :: "bool \<Rightarrow> piece \<Rightarrow> piece option" where
  "rotate cw p =
     (let n = int (length (shape_list p)) in
      if n = 0 then None
      else
        let r = (if cw then (rot_index p + 1) mod n else (rot_index p - 1) mod n)
        in do { sh \<leftarrow> py_get (shape_list p) r;
                Some (p\<lparr>rot_index := r, shape := sh\<rparr>) })"

definition get_cells :: "piece \<Rightarrow> int \<Rightarrow> int \<Rightarrow> (int \<times> int) list" where
  "get_cells p x_off y_off =
     [(px p + int c + x_off, py p + int r + y_off).
        (r, row) \<leftarrow> enumerate 0 (shape p), (c, v) \<leftarrow> enumerate 0 row, v \<noteq> 0]"

section \<open>The board\<close>

type_synonym cell = "kind option"
type_synonym board = "cell list list"

text \<open>\<^verbatim>\<open>board[y][x]\<close> and \<^verbatim>\<open>board[y][x] = v\<close>. The rows of the board are never
  aliased (each is built by its own list expression), so writing a cell replaces one
  row.\<close>

definition board_get :: "board \<Rightarrow> int \<Rightarrow> int \<Rightarrow> cell option" where
  "board_get b y x = do { row \<leftarrow> py_get b y; py_get row x }"

definition board_set :: "board \<Rightarrow> int \<Rightarrow> int \<Rightarrow> cell \<Rightarrow> board option" where
  "board_set b y x v = do { row \<leftarrow> py_get b y; row' \<leftarrow> py_set row x v; py_set b y row' }"

text \<open>The same two accesses, refusing every cell outside \<open>[0,COLS) \<times> [0,ROWS)\<close>.
  They are not part of the program: running the program's loops on them shows which
  cells the loops touch.\<close>

definition in_grid :: "int \<Rightarrow> int \<Rightarrow> bool" where
  "in_grid x y \<longleftrightarrow> 0 \<le> x \<and> x < COLS \<and> 0 \<le> y \<and> y < ROWS"

definition grid_get :: "board \<Rightarrow> int \<Rightarrow> int \<Rightarrow> cell option" where
  "grid_get b y x = (if in_grid x y then board_get b y x else None)"

definition grid_set :: "board \<Rightarrow> int \<Rightarrow> int \<Rightarrow> cell \<Rightarrow> board option" where
  "grid_set b y x v = (if in_grid x y then board_set b y x v else None)"

text \<open>The loop of \<^verbatim>\<open>GameState.collision\<close> over the cells of the piece; \<open>look y x\<close>
  is the subscript \<^verbatim>\<open>self.board[y][x]\<close>.\<close>

fun collision_cells :: "(int \<Rightarrow> int \<Rightarrow> cell option) \<Rightarrow> (int \<times> int) list \<Rightarrow> bool option" where
  "collision_cells look [] = Some False"
| "collision_cells look ((x, y) # cs) =
     (if x < 0 \<or> x \<ge> COLS then Some True
      else if y \<ge> ROWS then Some True
      else if y \<ge> 0 then
        do { c \<leftarrow> look y x;
             if c \<noteq> None then Some True else collision_cells look cs }
      else collision_cells look cs)"

definition collision :: "board \<Rightarrow> piece \<Rightarrow> int \<Rightarrow> int \<Rightarrow> bool option" where
  "collision b p x_off y_off = collision_cells (board_get b) (get_cells p x_off y_off)"

text \<open>The loop of \<^verbatim>\<open>lock_piece\<close>; \<open>put b y x v\<close> is the assignment
  \<^verbatim>\<open>self.board[y][x] = v\<close>.\<close>

fun lock_cells ::
  "(board \<Rightarrow> int \<Rightarrow> int \<Rightarrow> cell \<Rightarrow> board option) \<Rightarrow> kind \<Rightarrow> (int \<times> int) list \<Rightarrow> board \<Rightarrow> board option" where
  "lock_cells put k [] b = Some b"
| "lock_cells put k ((x, y) # cs) b =
     (if y \<ge> 0 \<and> y < ROWS then do { b' \<leftarrow> put b y x (Some k); lock_cells put k cs b' }
      else lock_cells put k cs b)"

section \<open>The 7-bag\<close>

text \<open>\<^verbatim>\<open>random.shuffle\<close> is the library's Fisher-Yates loop
  \<^verbatim>\<open>for i in reversed(range(1, len(x))): j = randbelow(i + 1); x[i], x[j] = x[j], x[i]\<close>.
  The generator is a sequence \<open>g\<close> of raw draws: \<open>randbelow n\<close> is \<open>g 0 mod n\<close>,
  and the generator moves on to \<open>\<lambda>n. g (Suc n)\<close>. Every sequence is allowed.\<close>

type_synonym rng = "nat \<Rightarrow> nat"

fun shuffle_from :: "nat \<Rightarrow> rng \<Rightarrow> 'a list \<Rightarrow> 'a list \<times> rng" where
  "shuffle_from 0 g xs = (xs, g)"
| "shuffle_from (Suc i) g xs =
     (let j = g 0 mod (Suc i + 1)
      in shuffle_from i (\<lambda>n. g (Suc n)) (xs[Suc i := xs ! j, j := xs ! Suc i]))"

definition shuffle :: "rng \<Rightarrow> 'a list \<Rightarrow> 'a list \<times> rng" where
  "shuffle g xs = shuffle_from (length xs - 1) g xs"

definition new_bag :: "rng \<Rightarrow> kind list \<times> rng" where
  "new_bag g = shuffle g PIECE_KEYS"

section \<open>The game state\<close>

text \<open>The class \<^verbatim>\<open>GameState\<close>, with the state of the module \<^verbatim>\<open>random\<close> as the
  field \<open>rng\<close>. The two deques are lists with the left end at the head. A call of
  \<^verbatim>\<open>pygame.time.get_ticks()\<close> is the argument \<open>now\<close> of the operation that makes
  it, and \<^verbatim>\<open>pygame.key.get_pressed()[pygame.K_DOWN]\<close> the argument \<open>down\<close>. An
  operation returns \<open>None\<close> when the Python raises or does not return.\<close>

record game_state =
  board :: board
  bag :: "kind list"
  next_queue :: "kind list"
  active :: piece
  hold :: "kind option"
  hold_used :: bool
  last_fall :: int
  fall_ms :: int
  paused :: bool
  game_over :: bool
  score :: int
  lines :: int
  level :: int
  grounded :: bool
  lock_start :: "int option"
  lock_resets_left :: int
  rng :: rng

definition fill_next :: "game_state \<Rightarrow> game_state option" where
  "fill_next s =
     (let s1 = (if bag s = [] then (let (b, g) = new_bag (rng s) in s\<lparr>bag := b, rng := g\<rparr>)
                else s)
      in case bag s1 of
           [] \<Rightarrow> None
         | k # rest \<Rightarrow> Some (s1\<lparr>next_queue := next_queue s1 @ [k], bag := rest\<rparr>))"

definition spawn_from_queue :: "game_state \<Rightarrow> (piece \<times> game_state) option" where
  "spawn_from_queue s =
     do { s1 \<leftarrow> (if next_queue s = [] then fill_next s else Some s);
          case next_queue s1 of
            [] \<Rightarrow> None
          | k # rest \<Rightarrow>
              do { s2 \<leftarrow> fill_next (s1\<lparr>next_queue := rest\<rparr>);
                   Some (Piece k, s2) } }"

text \<open>\<^verbatim>\<open>GameState.__init__\<close>. The attribute \<open>active\<close> is assigned after the queue is
  filled; until then the record carries a piece that nothing reads.\<close>

definition GameState :: "rng \<Rightarrow> int \<Rightarrow> game_state option" where
  "GameState g now =
     (let (b, g1) = new_bag g;
          s0 = \<lparr>board = replicate (nat ROWS) (replicate (nat COLS) None),
                bag = b, next_queue = [], active = Piece KI,
                hold = None, hold_used = False,
                last_fall = now, fall_ms = BASE_FALL_MS,
                paused = False, game_over = False,
                score = 0, lines = 0, level = 0,
                grounded = False, lock_start = None, lock_resets_left = 15,
                rng = g1\<rparr>
      in do { s1 \<leftarrow> fill_next s0;
              s2 \<leftarrow> fill_next s1;
              s3 \<leftarrow> fill_next s2;
              s4 \<leftarrow> fill_next s3;
              s5 \<leftarrow> fill_next s4;
              (p, s6) \<leftarrow> spawn_from_queue s5;
              Some (s6\<lparr>active := p\<rparr>) })"

definition reset_lock_timer :: "int \<Rightarrow> game_state \<Rightarrow> game_state" where
  "reset_lock_timer now s =
     (if lock_resets_left s > 0
      then s\<lparr>lock_start := Some now, lock_resets_left := lock_resets_left s - 1\<rparr>
      else s)"

text \<open>The loop over \<^verbatim>\<open>kicks\<close> in \<^verbatim>\<open>try_rotate_with_kick\<close>: the first offset at
  which the piece does not collide, if there is one.\<close>

fun kick_loop :: "board \<Rightarrow> piece \<Rightarrow> (int \<times> int) list \<Rightarrow> (int \<times> int) option option" where
  "kick_loop b p [] = Some None"
| "kick_loop b p ((dx, dy) # ks) =
     do { c \<leftarrow> collision b p dx dy;
          if \<not> c then Some (Some (dx, dy)) else kick_loop b p ks }"

definition kicks :: "(int \<times> int) list" where
  "kicks = [(0,0), (-1,0), (1,0), (-2,0), (2,0), (0,-1)]"

definition try_rotate_with_kick :: "int \<Rightarrow> bool \<Rightarrow> game_state \<Rightarrow> (bool \<times> game_state) option" where
  "try_rotate_with_kick now cw s =
     (let original_rot = rot_index (active s) in
      do { p \<leftarrow> rotate cw (active s);
           k \<leftarrow> kick_loop (board s) p kicks;
           case k of
             Some (dx, dy) \<Rightarrow>
               (let s1 = s\<lparr>active := p\<lparr>px := px p + dx, py := py p + dy\<rparr>\<rparr>
                in Some (True, if grounded s1 then reset_lock_timer now s1 else s1))
           | None \<Rightarrow>
               do { sh \<leftarrow> py_get (shape_list p) original_rot;
                    Some (False, s\<lparr>active := p\<lparr>rot_index := original_rot, shape := sh\<rparr>\<rparr>) } })"

definition clear_lines_and_score :: "game_state \<Rightarrow> game_state" where
  "clear_lines_and_score s =
     (let new_board = filter (\<lambda>row. \<exists>cell \<in> set row. cell = None) (board s);
          cleared = ROWS - int (length new_board)
      in if cleared > 0
         then s\<lparr>board := replicate (nat cleared) (replicate (nat COLS) None) @ new_board,
                score := score s + SCORES_get cleared 0 * (level s + 1),
                lines := lines s + cleared,
                level := (lines s + cleared) div 10,
                fall_ms := fall_interval ((lines s + cleared) div 10)\<rparr>
         else s)"

definition lock_piece :: "game_state \<Rightarrow> game_state option" where
  "lock_piece s =
     do { b \<leftarrow> lock_cells board_set (kind (active s)) (get_cells (active s) 0 0) (board s);
          (p, s1) \<leftarrow> spawn_from_queue (clear_lines_and_score (s\<lparr>board := b\<rparr>));
          let s2 = s1\<lparr>active := p, hold_used := False, grounded := False,
                      lock_start := None, lock_resets_left := 15\<rparr>;
          c \<leftarrow> collision (board s2) (active s2) 0 0;
          Some (if c then s2\<lparr>game_over := True\<rparr> else s2) }"

text \<open>The loop \<^verbatim>\<open>while not self.collision(self.active, 0, 1)\<close> of \<^verbatim>\<open>hard_drop\<close>.
  The counter \<open>d\<close> is the variable \<^verbatim>\<open>drop\<close>. The loop runs forever on a piece
  without a filled cell.\<close>

partial_function (option) drop_loop :: "board \<Rightarrow> piece \<Rightarrow> int \<Rightarrow> (piece \<times> int) option" where
  "drop_loop b p d =
     do { c \<leftarrow> collision b p 0 1;
          if \<not> c then drop_loop b (p\<lparr>py := py p + 1\<rparr>) (d + 1)
          else Some (p, d) }"

definition hard_drop :: "game_state \<Rightarrow> game_state option" where
  "hard_drop s =
     do { (p, d) \<leftarrow> drop_loop (board s) (active s) 0;
          lock_piece (s\<lparr>active := p, score := score s + HARD_DROP_SCORE * d\<rparr>) }"

definition soft_drop :: "game_state \<Rightarrow> game_state option" where
  "soft_drop s =
     do { c \<leftarrow> collision (board s) (active s) 0 1;
          Some (if \<not> c
                then s\<lparr>active := (active s)\<lparr>py := py (active s) + 1\<rparr>,
                       score := score s + SOFT_DROP_SCORE\<rparr>
                else s) }"

definition hold_action :: "game_state \<Rightarrow> game_state option" where
  "hold_action s =
     (if hold_used s then Some s
      else
        do { (p, s1) \<leftarrow>
               (case hold s of
                  None \<Rightarrow> spawn_from_queue (s\<lparr>hold_used := True, hold := Some (kind (active s))\<rparr>)
                | Some temp \<Rightarrow>
                    Some (Piece temp, s\<lparr>hold_used := True, hold := Some (kind (active s))\<rparr>));
             w \<leftarrow> py_get (shape p) 0;
             let p' = p\<lparr>px := COLS div 2 - int (length w) div 2,
                        py := - (int (length (shape p)) - 1)\<rparr>;
             let s2 = s1\<lparr>active := p', grounded := False, lock_start := None,
                         lock_resets_left := 15\<rparr>;
             c \<leftarrow> collision (board s2) (active s2) 0 0;
             Some (if c then s2\<lparr>game_over := True\<rparr> else s2) })"

text \<open>\<^verbatim>\<open>if self.lock_start and now - self.lock_start >= LOCK_DELAY_MS\<close>: a start time
  of \<open>None\<close> or of \<open>0\<close> is false in Python.\<close>

definition lock_due :: "int \<Rightarrow> int option \<Rightarrow> bool" where
  "lock_due now ls = (case ls of None \<Rightarrow> False | Some t \<Rightarrow> t \<noteq> 0 \<and> now - t \<ge> LOCK_DELAY_MS)"

definition tick :: "int \<Rightarrow> bool \<Rightarrow> game_state \<Rightarrow> game_state option" where
  "tick now down s =
     (if game_over s \<or> paused s then Some (s\<lparr>last_fall := now\<rparr>)
      else
        let falling_interval = (if down then SOFT_DROP_MS else fall_ms s) in
        if now - last_fall s \<ge> falling_interval then
          do { c \<leftarrow> collision (board s) (active s) 0 1;
               s1 \<leftarrow>
                 (if \<not> c
                  then Some (s\<lparr>active := (active s)\<lparr>py := py (active s) + 1\<rparr>,
                              grounded := False, lock_start := None\<rparr>)
                  else
                    let s' = (if \<not> grounded s then s\<lparr>grounded := True, lock_start := Some now\<rparr>
                              else s)
                    in if lock_due now (lock_start s') then lock_piece s' else Some s');
               Some (s1\<lparr>last_fall := now\<rparr>) }
        else Some s)"

text \<open>The key handlers of \<^verbatim>\<open>main\<close> for left/right (\<open>dx\<close> is \<open>-1\<close> or \<open>1\<close>) and for
  pause.\<close>

definition move :: "int \<Rightarrow> int \<Rightarrow> game_state \<Rightarrow> game_state option" where
  "move dx now s =
     do { c \<leftarrow> collision (board s) (active s) dx 0;
          Some (if \<not> c
                then (let s1 = s\<lparr>active := (active s)\<lparr>px := px (active s) + dx\<rparr>\<rparr>
                      in if grounded s1 then reset_lock_timer now s1 else s1)
                else s) }"

definition toggle_pause :: "game_state \<Rightarrow> game_state" where
  "toggle_pause s = s\<lparr>paused := \<not> paused s\<rparr>"

text \<open>One key event or one call of \<open>tick\<close> of the main loop. The key R builds a new
  \<open>GameState\<close>.\<close>

datatype event =
    Tick int bool
  | KeyHold
  | KeyRotate bool int
  | KeyHardDrop
  | KeySoftDrop
  | KeyLeft int
  | KeyRight int
  | KeyPause
  | KeyRestart rng int

fun step :: "event \<Rightarrow> game_state \<Rightarrow> game_state option" where
  "step (Tick now down) s = tick now down s"
| "step KeyHold s = hold_action s"
| "step (KeyRotate cw now) s = map_option snd (try_rotate_with_kick now cw s)"
| "step KeyHardDrop s = hard_drop s"
| "step KeySoftDrop s = soft_drop s"
| "step (KeyLeft now) s = move (-1) now s"
| "step (KeyRight now) s = move 1 now s"
| "step KeyPause s = Some (toggle_pause s)"
| "step (KeyRestart g now) s = GameState g now"

inductive reachable :: "game_state \<Rightarrow> bool" where
  init: "GameState g now = Some s \<Longrightarrow> reachable s"
| step: "reachable s \<Longrightarrow> step ev s = Some s' \<Longrightarrow> reachable s'"

section \<open>Predicates used by the statements\<close>

text \<open>A board of \<open>ROWS\<close> rows of \<open>COLS\<close> cells.\<close>

definition wf_board :: "board \<Rightarrow> bool" where
  "wf_board b \<longleftrightarrow> int (length b) = ROWS \<and> (\<forall>row \<in> set b. int (length row) = COLS)"

text \<open>The test that the loop of \<open>collision\<close> makes on one cell, on a board whose
  subscripts are in range.\<close>

definition blocked :: "board \<Rightarrow> int \<times> int \<Rightarrow> bool" where
  "blocked b c =
     (case c of (x, y) \<Rightarrow>
        x < 0 \<or> x \<ge> COLS \<or> y \<ge> ROWS \<or> (y \<ge> 0 \<and> b ! nat y ! nat x \<noteq> None))"

text \<open>The derived attributes of a piece agree with its kind and rotation index.\<close>

definition piece_ok :: "piece \<Rightarrow> bool" where
  "piece_ok p \<longleftrightarrow>
     shape_list p = PIECES (kind p) \<and>
     0 \<le> rot_index p \<and> rot_index p < int (length (shape_list p)) \<and>
     shape p = shape_list p ! nat (rot_index p)"

text \<open>Every filled cell of the piece has its column inside the board.\<close>

definition cols_ok :: "piece \<Rightarrow> bool" where
  "cols_ok p \<longleftrightarrow> (\<forall>(x, y) \<in> set (get_cells p 0 0). 0 \<le> x \<and> x < COLS)"

text \<open>The facts that hold of every state the game reaches: the board has its shape,
  the active piece is consistent and inside the columns, the level belongs to the line
  count, and the reset counter is within its bounds.\<close>

definition state_ok :: "game_state \<Rightarrow> bool" where
  "state_ok s \<longleftrightarrow>
     wf_board (board s) \<and> piece_ok (active s) \<and> cols_ok (active s) \<and>
     0 \<le> lines s \<and> level s = lines s div 10 \<and>
     0 \<le> lock_resets_left s \<and> lock_resets_left s \<le> 15"

text \<open>\<open>n\<close> successive calls of \<open>_fill_next\<close>.\<close>

primrec fill_n :: "nat \<Rightarrow> game_state \<Rightarrow> game_state option" where
  "fill_n 0 s = Some s"
| "fill_n (Suc n) s = fill_next s \<bind> fill_n n"

text \<open>The state that \<open>GameState\<close> builds at time 0 when every draw of the generator
  is 0: the shuffle gives the bag J, L, O, S, T, Z, I.\<close>

definition example_state :: game_state where
  "example_state =
     \<lparr>board = replicate 20 (replicate 10 None),
      bag = [KI], next_queue = [KL, KO, KS, KT, KZ], active = Piece KJ,
      hold = None, hold_used = False,
      last_fall = 0, fall_ms = 800,
      paused = False, game_over = False,
      score = 0, lines = 0, level = 0,
      grounded = False, lock_start = None, lock_resets_left = 15,
      rng = (\<lambda>_. 0)\<rparr>"

text \<open>The condition under which \<open>tick\<close> reaches its call of \<open>lock_piece\<close>: the game
  runs, the fall interval has passed, the piece cannot move down, and the lock delay (from
  the start time just set, when the piece was not yet grounded) has run out.\<close>

definition tick_locks :: "int \<Rightarrow> bool \<Rightarrow> game_state \<Rightarrow> bool" where
  "tick_locks now down s \<longleftrightarrow>
     \<not> (game_over s \<or> paused s) \<and>
     now - last_fall s \<ge> (if down then SOFT_DROP_MS else fall_ms s) \<and>
     collision (board s) (active s) 0 1 = Some True \<and>
     lock_due now (if \<not> grounded s then Some now else lock_start s)"


text \<open>A state in which \<open>clear_lines_and_score\<close> is called: nine lines were cleared
  before, and the piece just locked has completed the bottom row.\<close>

definition full_row_state :: game_state where
  "full_row_state =
     example_state\<lparr>board := replicate 19 (replicate 10 None) @ [replicate 10 (Some KI)],
                   lines := 9\<rparr>"


text \<open>A row in which every cell is non-empty.\<close>

definition full_row :: "cell list \<Rightarrow> bool" where
  "full_row row \<longleftrightarrow> (\<forall>cell \<in> set row. cell \<noteq> None)"











section \<open>The tables and the bag\<close>

lemmas PIECES_eval = PIECES_def rotations_from_matrix_def rotate_cw_def uniq_def Let_def

lemma PIECES_KI: "PIECES KI =
  [[[0,0,0,0],[1,1,1,1],[0,0,0,0],[0,0,0,0]],
   [[0,0,1,0],[0,0,1,0],[0,0,1,0],[0,0,1,0]],
   [[0,0,0,0],[0,0,0,0],[1,1,1,1],[0,0,0,0]],
   [[0,1,0,0],[0,1,0,0],[0,1,0,0],[0,1,0,0]]]"
  by (simp add: PIECES_eval)

lemma PIECES_KJ: "PIECES KJ =
  [[[1,0,0],[1,1,1],[0,0,0]], [[0,1,1],[0,1,0],[0,1,0]],
   [[0,0,0],[1,1,1],[0,0,1]], [[0,1,0],[0,1,0],[1,1,0]]]"
  by (simp add: PIECES_eval)

lemma PIECES_KL: "PIECES KL =
  [[[0,0,1],[1,1,1],[0,0,0]], [[0,1,0],[0,1,0],[0,1,1]],
   [[0,0,0],[1,1,1],[1,0,0]], [[1,1,0],[0,1,0],[0,1,0]]]"
  by (simp add: PIECES_eval)

lemma PIECES_KO: "PIECES KO = [[[1,1],[1,1]]]"
  by (simp add: PIECES_eval)

lemma PIECES_KS: "PIECES KS =
  [[[0,1,1],[1,1,0],[0,0,0]], [[0,1,0],[0,1,1],[0,0,1]],
   [[0,0,0],[0,1,1],[1,1,0]], [[1,0,0],[1,1,0],[0,1,0]]]"
  by (simp add: PIECES_eval)

lemma PIECES_KT: "PIECES KT =
  [[[0,1,0],[1,1,1],[0,0,0]], [[0,1,0],[0,1,1],[0,1,0]],
   [[0,0,0],[1,1,1],[0,1,0]], [[0,1,0],[1,1,0],[0,1,0]]]"
  by (simp add: PIECES_eval)

lemma PIECES_KZ: "PIECES KZ =
  [[[1,1,0],[0,1,1],[0,0,0]], [[0,0,1],[0,1,1],[0,1,0]],
   [[0,0,0],[1,1,0],[0,1,1]], [[0,1,0],[1,1,0],[1,0,0]]]"
  by (simp add: PIECES_eval)

lemmas PIECES_simps = PIECES_KI PIECES_KJ PIECES_KL PIECES_KO PIECES_KS PIECES_KT PIECES_KZ

lemma PIECES_first: "PIECES k \<noteq> [] \<and> PIECES k ! 0 \<noteq> []"
  by (cases k) (simp_all add: PIECES_simps)

lemma py_get_Some_iff:
  "py_get xs i = Some v \<longleftrightarrow>
     (0 \<le> i \<and> i < int (length xs) \<and> v = xs ! nat i) \<or>
     (- int (length xs) \<le> i \<and> i < 0 \<and> v = xs ! nat (i + int (length xs)))"
  by (auto simp: py_get_def py_index_def Let_def)

lemma py_get_in_range: "0 \<le> i \<Longrightarrow> i < int (length xs) \<Longrightarrow> py_get xs i = Some (xs ! nat i)"
  by (simp add: py_get_def py_index_def)

lemma py_set_in_range: "0 \<le> i \<Longrightarrow> i < int (length xs) \<Longrightarrow> py_set xs i v = Some (xs[nat i := v])"
  by (simp add: py_set_def py_index_def)

lemma mset_shuffle_from:
  "i < length xs \<Longrightarrow> mset (fst (shuffle_from i g xs)) = mset xs"
proof (induction i arbitrary: g xs)
  case 0
  then show ?case by simp
next
  case (Suc i)
  let ?j = "g 0 mod (Suc i + 1)"
  have j: "?j < length xs" using Suc.prems
  proof -
    have "?j < Suc i + 1" by (rule mod_less_divisor) simp
    with Suc.prems show ?thesis by linarith
  qed
  have "mset (xs[Suc i := xs ! ?j, ?j := xs ! Suc i]) = mset xs"
    using Suc.prems j by (simp add: mset_swap)
  moreover have "i < length (xs[Suc i := xs ! ?j, ?j := xs ! Suc i])"
    using Suc.prems by simp
  ultimately show ?case
    using Suc.IH[of "xs[Suc i := xs ! ?j, ?j := xs ! Suc i]" "\<lambda>n. g (Suc n)"] by (simp add: Let_def)
qed

lemma mset_shuffle: "mset (fst (shuffle g xs)) = mset xs"
proof (cases xs)
  case Nil
  then show ?thesis by (simp add: shuffle_def)
next
  case (Cons a as)
  then show ?thesis by (simp add: shuffle_def mset_shuffle_from)
qed

lemma mset_new_bag: "mset (fst (new_bag g)) = mset PIECE_KEYS"
  by (simp add: new_bag_def mset_shuffle)

lemma length_new_bag: "length (fst (new_bag g)) = 7"
  using arg_cong[OF mset_new_bag, of size] by (simp add: PIECE_KEYS_def)

lemma distinct_new_bag: "distinct (fst (new_bag g))"
proof -
  have "distinct PIECE_KEYS" by (simp add: PIECE_KEYS_def)
  then show ?thesis using mset_new_bag by (metis mset_eq_imp_distinct_iff)
qed

lemma set_new_bag: "set (fst (new_bag g)) = UNIV"
proof -
  have "set (fst (new_bag g)) = set PIECE_KEYS" using mset_new_bag by (metis mset_eq_setD)
  also have "\<dots> = UNIV"
  proof -
    have "k \<in> set PIECE_KEYS" for k by (cases k) (simp_all add: PIECE_KEYS_def)
    then show ?thesis by auto
  qed
  finally show ?thesis .
qed

section \<open>Collision on a well-formed board\<close>

lemma board_get_wf:
  assumes "wf_board b" "0 \<le> x" "x < COLS" "0 \<le> y" "y < ROWS"
  shows "board_get b y x = Some (b ! nat y ! nat x)"
proof -
  have y: "y < int (length b)" using assms by (simp add: wf_board_def)
  then have "b ! nat y \<in> set b" using assms(4) by simp
  then have "int (length (b ! nat y)) = COLS" using assms(1) by (simp add: wf_board_def)
  then show ?thesis using assms y by (simp add: board_get_def py_get_in_range)
qed

lemma collision_cells_wf:
  "wf_board b \<Longrightarrow> collision_cells (board_get b) cs = Some (list_ex (blocked b) cs)"
proof (induction cs)
  case Nil
  then show ?case by simp
next
  case (Cons c cs)
  obtain x y where c: "c = (x, y)" by (cases c)
  show ?case using Cons
    by (auto simp: c blocked_def board_get_wf)
qed

lemma collision_wf:
  "wf_board b \<Longrightarrow> collision b p xo yo = Some (list_ex (blocked b) (get_cells p xo yo))"
  by (simp add: collision_def collision_cells_wf)

lemma collision_cells_cong:
  "(\<And>x y. in_grid x y \<Longrightarrow> look y x = look' y x) \<Longrightarrow>
     collision_cells look cs = collision_cells look' cs"
proof (induction cs)
  case Nil
  then show ?case by simp
next
  case (Cons c cs)
  obtain x y where c: "c = (x, y)" by (cases c)
  have IH: "collision_cells look cs = collision_cells look' cs"
    using Cons by simp
  have "look y x = look' y x" if "0 \<le> x" "x < COLS" "0 \<le> y" "y < ROWS"
    using that Cons.prems by (simp add: in_grid_def)
  then show ?case unfolding c collision_cells.simps IH by auto
qed

lemma collision_cells_grid:
  "collision_cells (grid_get b) cs = collision_cells (board_get b) cs"
  by (rule collision_cells_cong) (simp add: grid_get_def)

lemma not_blocked_cols:
  "\<not> list_ex (blocked b) cs \<Longrightarrow> (x, y) \<in> set cs \<Longrightarrow> 0 \<le> x \<and> x < COLS \<and> y < ROWS"
  by (auto simp: list_ex_iff blocked_def)

lemma get_cells_shift:
  "get_cells p xo yo = map (\<lambda>(x, y). (x + xo, y + yo)) (get_cells p 0 0)"
  unfolding get_cells_def case_prod_unfold
  by (simp add: map_concat comp_def if_distrib cong: if_cong)

lemma get_cells_moved:
  "get_cells (p\<lparr>px := px p + dx, py := py p + dy\<rparr>) 0 0 = get_cells p dx dy"
  by (simp add: get_cells_def add.commute add.left_commute cong: if_cong)

lemma get_cells_py_update:
  "get_cells (p\<lparr>py := py p + dy\<rparr>) 0 0 = get_cells p 0 dy"
  by (simp add: get_cells_def add.commute add.left_commute cong: if_cong)

lemma get_cells_px_update:
  "get_cells (p\<lparr>px := px p + dx\<rparr>) 0 0 = get_cells p dx 0"
  by (simp add: get_cells_def add.commute add.left_commute cong: if_cong)

section \<open>Writing the locked cells\<close>

lemma wf_board_nat: "wf_board b \<Longrightarrow> 0 \<le> y \<Longrightarrow> y < ROWS \<Longrightarrow> nat y < length b"
  unfolding wf_board_def by linarith

lemma wf_board_row: "wf_board b \<Longrightarrow> 0 \<le> y \<Longrightarrow> y < ROWS \<Longrightarrow> int (length (b ! nat y)) = COLS"
  using wf_board_nat[of b y] nth_mem[of "nat y" b] by (simp add: wf_board_def)

lemma board_set_wf:
  assumes "wf_board b" "0 \<le> x" "x < COLS" "0 \<le> y" "y < ROWS"
  shows "board_set b y x v = Some (b[nat y := (b ! nat y)[nat x := v]])"
proof -
  have y: "y < int (length b)" using assms by (simp add: wf_board_def)
  have "int (length (b ! nat y)) = COLS" using assms by (simp add: wf_board_row)
  then show ?thesis using assms y
    by (simp add: board_set_def py_get_in_range py_set_in_range)
qed

lemma wf_board_update:
  assumes "wf_board b" "length row = length (b ! i)" "i < length b"
  shows "wf_board (b[i := row])"
proof -
  have "int (length r) = COLS" if "r \<in> set (b[i := row])" for r
  proof -
    from that have "r = row \<or> r \<in> set b"
      using set_update_subset_insert[of b i row] by auto
    then show ?thesis using assms by (auto simp: wf_board_def)
  qed
  then show ?thesis using assms by (simp add: wf_board_def)
qed

lemma lock_cells_wf:
  "wf_board b \<Longrightarrow> (\<forall>(x, y) \<in> set cs. 0 \<le> x \<and> x < COLS) \<Longrightarrow>
     \<exists>b'. lock_cells board_set k cs b = Some b' \<and> wf_board b'"
proof (induction cs arbitrary: b)
  case Nil
  then show ?case by simp
next
  case (Cons c cs)
  obtain x y where c: "c = (x, y)" by (cases c)
  have x: "0 \<le> x" "x < COLS" using Cons.prems(2) by (simp_all add: c)
  have rest: "\<forall>(x, y) \<in> set cs. 0 \<le> x \<and> x < COLS" using Cons.prems(2) by simp
  show ?case
  proof (cases "y \<ge> 0 \<and> y < ROWS")
    case True
    let ?b = "b[nat y := (b ! nat y)[nat x := Some k]]"
    have "nat y < length b" using True Cons.prems(1) by (simp add: wf_board_nat)
    then have "wf_board ?b" using Cons.prems(1) by (simp add: wf_board_update)
    then show ?thesis using Cons.IH[of ?b] rest True x Cons.prems(1)
      by (simp add: c board_set_wf)
  next
    case False
    then show ?thesis using Cons.IH[of b] rest Cons.prems(1) by (auto simp: c)
  qed
qed

lemma lock_cells_grid:
  "(\<forall>(x, y) \<in> set cs. 0 \<le> x \<and> x < COLS) \<Longrightarrow>
     lock_cells grid_set k cs b = lock_cells board_set k cs b"
proof (induction cs arbitrary: b)
  case Nil
  then show ?case by simp
next
  case (Cons c cs)
  obtain x y where c: "c = (x, y)" by (cases c)
  have IH: "lock_cells grid_set k cs b' = lock_cells board_set k cs b'" for b'
    using Cons by simp
  have "grid_set b y x (Some k) = board_set b y x (Some k)" if "0 \<le> y" "y < ROWS"
    using that Cons.prems by (simp add: c grid_set_def in_grid_def)
  then show ?case unfolding c lock_cells.simps IH by auto
qed

section \<open>The cells of a piece\<close>

text \<open>The cells of a piece as a set.\<close>

lemma set_get_cells:
  "set (get_cells p xo yo) =
     {(px p + int c + xo, py p + int r + yo) | r c.
        r < length (shape p) \<and> c < length (shape p ! r) \<and> shape p ! r ! c \<noteq> 0}"
proof -
  have "set (get_cells p xo yo) =
     (\<Union>(r, row) \<in> set (enumerate 0 (shape p)).
        \<Union>(c, v) \<in> set (enumerate 0 row).
          (if v \<noteq> 0 then {(px p + int c + xo, py p + int r + yo)} else {}))"
    unfolding get_cells_def by (simp add: case_prod_unfold if_distrib cong: if_cong)
  also have "\<dots> = {(px p + int c + xo, py p + int r + yo) | r c.
        r < length (shape p) \<and> c < length (shape p ! r) \<and> shape p ! r ! c \<noteq> 0}"
    by (fastforce simp: in_set_enumerate_eq split: if_splits)
  finally show ?thesis .
qed

lemma get_cells_nonempty:
  "\<exists>row \<in> set m. \<exists>v \<in> set row. v \<noteq> 0 \<Longrightarrow> shape p = m \<Longrightarrow> get_cells p xo yo \<noteq> []"
proof -
  assume "\<exists>row \<in> set m. \<exists>v \<in> set row. v \<noteq> 0" and m: "shape p = m"
  then obtain r c where "r < length m" "c < length (m ! r)" "m ! r ! c \<noteq> 0"
    by (metis in_set_conv_nth)
  then have "(px p + int c + xo, py p + int r + yo) \<in> set (get_cells p xo yo)"
    unfolding set_get_cells m by blast
  then show ?thesis by auto
qed

lemma PIECES_filled: "m \<in> set (PIECES k) \<Longrightarrow> \<exists>row \<in> set m. \<exists>v \<in> set row. v \<noteq> 0"
  by (cases k) (auto simp: PIECES_simps)

lemma piece_ok_shape_mem: "piece_ok p \<Longrightarrow> shape p \<in> set (PIECES (kind p))"
  by (metis nat_less_iff nth_mem piece_ok_def)

lemma piece_ok_cells: "piece_ok p \<Longrightarrow> get_cells p xo yo \<noteq> []"
  using PIECES_filled get_cells_nonempty piece_ok_shape_mem by blast

lemma piece_ok_Piece: "piece_ok (Piece k)"
  using PIECES_first[of k] by (simp add: piece_ok_def Piece_def Let_def)

lemma get_cells_Piece:
  "get_cells (Piece KI) 0 0 = [(3, -2), (4, -2), (5, -2), (6, -2)]"
  "get_cells (Piece KJ) 0 0 = [(4, -2), (4, -1), (5, -1), (6, -1)]"
  "get_cells (Piece KL) 0 0 = [(6, -2), (4, -1), (5, -1), (6, -1)]"
  "get_cells (Piece KO) 0 0 = [(4, -1), (5, -1), (4, 0), (5, 0)]"
  "get_cells (Piece KS) 0 0 = [(5, -2), (6, -2), (4, -1), (5, -1)]"
  "get_cells (Piece KT) 0 0 = [(5, -2), (4, -1), (5, -1), (6, -1)]"
  "get_cells (Piece KZ) 0 0 = [(4, -2), (5, -2), (5, -1), (6, -1)]"
  by (simp_all add: get_cells_def Piece_def PIECES_simps COLS_def enumerate_simps Let_def)

lemma cols_ok_Piece: "cols_ok (Piece k)"
  by (cases k) (simp_all add: cols_ok_def get_cells_Piece COLS_def)

lemma kind_Piece [simp]: "kind (Piece k) = k"
  by (simp add: Piece_def Let_def)

section \<open>Rotation and the queue\<close>

lemma rotate_ok:
  fixes cw :: bool and p :: piece
  assumes "piece_ok p"
  defines "r \<equiv> (if cw then (rot_index p + 1) mod int (length (shape_list p))
                 else (rot_index p - 1) mod int (length (shape_list p)))"
  shows "rotate cw p = Some (p\<lparr>rot_index := r, shape := shape_list p ! nat r\<rparr>)"
    and "0 \<le> r" and "r < int (length (shape_list p))"
proof -
  have n: "0 < int (length (shape_list p))" using assms(1) by (auto simp: piece_ok_def)
  show "0 \<le> r" using n by (simp add: r_def)
  show "r < int (length (shape_list p))" using n by (simp add: r_def)
  then show "rotate cw p = Some (p\<lparr>rot_index := r, shape := shape_list p ! nat r\<rparr>)"
    using n \<open>0 \<le> r\<close> by (auto simp: rotate_def Let_def r_def py_get_in_range)
qed

lemma piece_ok_rotate:
  assumes "piece_ok p" "rotate cw p = Some p'"
  shows "piece_ok p'" "kind p' = kind p" "px p' = px p" "py p' = py p"
    "shape_list p' = shape_list p"
  using rotate_ok[OF assms(1), of cw] assms by (auto simp: piece_ok_def)

lemma fill_next_nonempty:
  "bag s \<noteq> [] \<Longrightarrow>
     fill_next s = Some (s\<lparr>next_queue := next_queue s @ [hd (bag s)], bag := tl (bag s)\<rparr>)"
  by (cases "bag s") (simp_all add: fill_next_def)

lemma fill_next_empty:
  "bag s = [] \<Longrightarrow>
     fill_next s =
       Some (s\<lparr>next_queue := next_queue s @ [hd (fst (new_bag (rng s)))],
              bag := tl (fst (new_bag (rng s))), rng := snd (new_bag (rng s))\<rparr>)"
proof -
  assume e: "bag s = []"
  obtain b g where bg: "new_bag (rng s) = (b, g)" by (cases "new_bag (rng s)")
  have "length b = 7" using length_new_bag[of "rng s"] by (simp add: bg)
  then obtain k rest where "b = k # rest" by (cases b) auto
  then show ?thesis using e bg by (simp add: fill_next_def)
qed

lemma fill_next_Some:
  "\<exists>k b g. fill_next s = Some (s\<lparr>bag := b, next_queue := next_queue s @ [k], rng := g\<rparr>)"
proof (cases "bag s = []")
  case True
  have "s\<lparr>next_queue := next_queue s @ [hd (fst (new_bag (rng s)))],
          bag := tl (fst (new_bag (rng s))), rng := snd (new_bag (rng s))\<rparr> =
        s\<lparr>bag := tl (fst (new_bag (rng s))),
          next_queue := next_queue s @ [hd (fst (new_bag (rng s)))],
          rng := snd (new_bag (rng s))\<rparr>"
    by simp
  then show ?thesis unfolding fill_next_empty[OF True] by blast
next
  case False
  have "s\<lparr>next_queue := next_queue s @ [hd (bag s)], bag := tl (bag s)\<rparr> =
        s\<lparr>bag := tl (bag s), next_queue := next_queue s @ [hd (bag s)], rng := rng s\<rparr>"
    by simp
  then show ?thesis unfolding fill_next_nonempty[OF False] by blast
qed

lemma spawn_from_queue_Some:
  "\<exists>k b q g. spawn_from_queue s = Some (Piece k, s\<lparr>bag := b, next_queue := q, rng := g\<rparr>)"
proof -
  obtain s1 where s1: "(if next_queue s = [] then fill_next s else Some s) = Some s1"
    and q1: "next_queue s1 \<noteq> []"
    and f1: "\<exists>b q g. s1 = s\<lparr>bag := b, next_queue := q, rng := g\<rparr>"
  proof (cases "next_queue s = []")
    case True
    obtain k b g where "fill_next s = Some (s\<lparr>bag := b, next_queue := next_queue s @ [k], rng := g\<rparr>)"
      using fill_next_Some by blast
    then show ?thesis using True that by auto
  next
    case False
    have "s = s\<lparr>bag := bag s, next_queue := next_queue s, rng := rng s\<rparr>" by simp
    then show ?thesis using False that by (metis (full_types))
  qed
  obtain k rest where kr: "next_queue s1 = k # rest" using q1 by (cases "next_queue s1") auto
  obtain b q g where s1eq: "s1 = s\<lparr>bag := b, next_queue := q, rng := g\<rparr>" using f1 by blast
  obtain k' b' g' where
    "fill_next (s1\<lparr>next_queue := rest\<rparr>) =
       Some (s1\<lparr>next_queue := rest\<rparr>\<lparr>bag := b', next_queue := next_queue (s1\<lparr>next_queue := rest\<rparr>) @ [k'], rng := g'\<rparr>)"
    using fill_next_Some by blast
  then have "spawn_from_queue s = Some (Piece k, s\<lparr>bag := b', next_queue := rest @ [k'], rng := g'\<rparr>)"
    using s1 kr by (simp add: spawn_from_queue_def s1eq)
  then show ?thesis by blast
qed

section \<open>Clearing lines and locking\<close>

lemma clear_frame [simp]:
  "bag (clear_lines_and_score s) = bag s"
  "next_queue (clear_lines_and_score s) = next_queue s"
  "active (clear_lines_and_score s) = active s"
  "hold (clear_lines_and_score s) = hold s"
  "hold_used (clear_lines_and_score s) = hold_used s"
  "last_fall (clear_lines_and_score s) = last_fall s"
  "paused (clear_lines_and_score s) = paused s"
  "game_over (clear_lines_and_score s) = game_over s"
  "grounded (clear_lines_and_score s) = grounded s"
  "lock_start (clear_lines_and_score s) = lock_start s"
  "lock_resets_left (clear_lines_and_score s) = lock_resets_left s"
  "rng (clear_lines_and_score s) = rng s"
  by (simp_all add: clear_lines_and_score_def Let_def)

lemma length_filter_rows:
  "wf_board b \<Longrightarrow> int (length (filter P b)) \<le> ROWS"
  using length_filter_le[of P b] unfolding wf_board_def by linarith

lemma clear_wf:
  assumes "wf_board (board s)"
  shows "wf_board (board (clear_lines_and_score s))"
proof -
  let ?nb = "filter (\<lambda>row. \<exists>cell \<in> set row. cell = None) (board s)"
  let ?c = "ROWS - int (length ?nb)"
  have rows: "\<forall>row \<in> set ?nb. int (length row) = COLS"
    using assms by (simp add: wf_board_def)
  show ?thesis
  proof (cases "?c > 0")
    case True
    have "int (length (replicate (nat ?c) (replicate (nat COLS) (None::cell)) @ ?nb)) = ROWS"
      using True by simp
    moreover have "\<forall>row \<in> set (replicate (nat ?c) (replicate (nat COLS) (None::cell)) @ ?nb).
        int (length row) = COLS"
      using rows by (auto simp: COLS_def)
    ultimately show ?thesis using True
      by (simp add: clear_lines_and_score_def Let_def wf_board_def)
  next
    case False
    then show ?thesis using assms by (simp add: clear_lines_and_score_def Let_def)
  qed
qed

lemma clear_counters:
  assumes "0 \<le> lines s" "level s = lines s div 10"
  shows "0 \<le> lines (clear_lines_and_score s)"
    and "level (clear_lines_and_score s) = lines (clear_lines_and_score s) div 10"
  using assms by (auto simp: clear_lines_and_score_def Let_def)

lemma lock_piece_Some:
  assumes "wf_board (board s)" "cols_ok (active s)"
  obtains b k bg q g where
    "lock_cells board_set (kind (active s)) (get_cells (active s) 0 0) (board s) = Some b"
    "wf_board b"
    "lock_piece s =
       Some ((clear_lines_and_score (s\<lparr>board := b\<rparr>))
              \<lparr>bag := bg, next_queue := q, rng := g, active := Piece k,
               hold_used := False, grounded := False, lock_start := None,
               lock_resets_left := 15,
               game_over := game_over s \<or>
                 list_ex (blocked (board (clear_lines_and_score (s\<lparr>board := b\<rparr>))))
                   (get_cells (Piece k) 0 0)\<rparr>)"
proof -
  obtain b where b: "lock_cells board_set (kind (active s)) (get_cells (active s) 0 0) (board s) = Some b"
    and wb: "wf_board b"
    using lock_cells_wf[OF assms(1), of "get_cells (active s) 0 0" "kind (active s)"] assms(2)
    by (auto simp: cols_ok_def)
  let ?s1 = "clear_lines_and_score (s\<lparr>board := b\<rparr>)"
  obtain k bg q g where sp: "spawn_from_queue ?s1 = Some (Piece k, ?s1\<lparr>bag := bg, next_queue := q, rng := g\<rparr>)"
    using spawn_from_queue_Some[of ?s1] by blast
  have w1: "wf_board (board ?s1)" using wb clear_wf[of "s\<lparr>board := b\<rparr>"] by simp
  have "lock_piece s =
       Some (?s1\<lparr>bag := bg, next_queue := q, rng := g, active := Piece k,
               hold_used := False, grounded := False, lock_start := None,
               lock_resets_left := 15,
               game_over := game_over s \<or>
                 list_ex (blocked (board ?s1)) (get_cells (Piece k) 0 0)\<rparr>)"
  proof (cases "list_ex (blocked (board ?s1)) (get_cells (Piece k) 0 0)")
    case True
    then show ?thesis using w1 by (simp add: lock_piece_def b sp collision_wf Let_def)
  next
    case False
    have "?s1\<lparr>bag := bg, next_queue := q, rng := g, active := Piece k,
               hold_used := False, grounded := False, lock_start := None,
               lock_resets_left := 15\<rparr> =
          ?s1\<lparr>bag := bg, next_queue := q, rng := g, active := Piece k,
               hold_used := False, grounded := False, lock_start := None,
               lock_resets_left := 15, game_over := game_over s\<rparr>"
      by (rule game_state.equality) simp_all
    then show ?thesis using w1 False by (simp add: lock_piece_def b sp collision_wf Let_def)
  qed
  then show ?thesis using that b wb by blast
qed

section \<open>The drop loop and the kick loop\<close>

lemma piece_ok_pos [simp]:
  "piece_ok (p\<lparr>py := v\<rparr>) = piece_ok p"
  "piece_ok (p\<lparr>px := u\<rparr>) = piece_ok p"
  by (simp_all add: piece_ok_def)

lemma cols_ok_py [simp]: "cols_ok (p\<lparr>py := v\<rparr>) = cols_ok p"
  unfolding cols_ok_def set_get_cells by auto

lemma cols_ok_free:
  assumes "\<not> list_ex (blocked b) (get_cells p dx dy)"
  shows "cols_ok (p\<lparr>px := px p + dx, py := py p + dy\<rparr>)"
  unfolding cols_ok_def get_cells_moved using not_blocked_cols[OF assms] by auto

lemma cols_ok_free_px:
  assumes "\<not> list_ex (blocked b) (get_cells p dx 0)"
  shows "cols_ok (p\<lparr>px := px p + dx\<rparr>)"
  unfolding cols_ok_def get_cells_px_update using not_blocked_cols[OF assms] by auto

lemma drop_loop_Some:
  assumes "wf_board b" "r < length (shape p)" "c < length (shape p ! r)" "shape p ! r ! c \<noteq> 0"
  shows "\<exists>n\<ge>0. drop_loop b p d = Some (p\<lparr>py := py p + n\<rparr>, d + n)"
  using assms
proof (induction "nat (ROWS - (py p + int r))" arbitrary: p d rule: less_induct)
  case less
  show ?case
  proof (cases "list_ex (blocked b) (get_cells p 0 1)")
    case True
    then have "drop_loop b p d = Some (p\<lparr>py := py p + 0\<rparr>, d + 0)"
      using less.prems(1) by (subst drop_loop.simps) (simp add: collision_wf)
    then show ?thesis by (intro exI[of _ 0]) simp
  next
    case False
    let ?p = "p\<lparr>py := py p + 1\<rparr>"
    have "(px p + int c + 0, py p + int r + 1) \<in> set (get_cells p 0 1)"
      unfolding set_get_cells using less.prems by blast
    then have below: "py p + int r + 1 < ROWS" using not_blocked_cols[OF False] by blast
    then have "nat (ROWS - (py ?p + int r)) < nat (ROWS - (py p + int r))" by simp
    then obtain n where n: "0 \<le> n" "drop_loop b ?p (d + 1) = Some (?p\<lparr>py := py ?p + n\<rparr>, d + 1 + n)"
      using less.hyps[of ?p "d + 1"] less.prems by auto
    have "drop_loop b p d = drop_loop b ?p (d + 1)"
      using False less.prems(1) by (subst drop_loop.simps) (simp add: collision_wf)
    then have "drop_loop b p d = Some (p\<lparr>py := py p + (n + 1)\<rparr>, d + (n + 1))"
      using n(2) by (simp add: add.commute add.left_commute)
    then show ?thesis using n(1) by (intro exI[of _ "n + 1"]) simp
  qed
qed

lemma piece_ok_filled:
  assumes "piece_ok p"
  obtains r c where "r < length (shape p)" "c < length (shape p ! r)" "shape p ! r ! c \<noteq> 0"
proof -
  have "\<exists>row \<in> set (shape p). \<exists>v \<in> set row. v \<noteq> 0"
    using PIECES_filled piece_ok_shape_mem[OF assms] by blast
  then show ?thesis using that by (metis in_set_conv_nth)
qed

lemma drop_loop_ok:
  assumes "wf_board b" "piece_ok p"
  shows "\<exists>n\<ge>0. drop_loop b p d = Some (p\<lparr>py := py p + n\<rparr>, d + n)"
proof -
  obtain r c where "r < length (shape p)" "c < length (shape p ! r)" "shape p ! r ! c \<noteq> 0"
    using piece_ok_filled[OF assms(2)] by blast
  then show ?thesis using drop_loop_Some[OF assms(1)] by blast
qed

lemma kick_loop_wf:
  "wf_board b \<Longrightarrow>
     kick_loop b p ks =
       Some (find (\<lambda>(dx, dy). \<not> list_ex (blocked b) (get_cells p dx dy)) ks)"
proof (induction ks)
  case Nil
  then show ?case by simp
next
  case (Cons k ks)
  obtain dx dy where k: "k = (dx, dy)" by (cases k)
  show ?case using Cons by (simp add: k collision_wf)
qed

lemma rotate_back:
  assumes "piece_ok p" "rotate cw p = Some p'"
  shows "py_get (shape_list p') (rot_index p) = Some (shape p)"
    and "p'\<lparr>rot_index := rot_index p, shape := shape p\<rparr> = p"
proof -
  have sl: "shape_list p' = shape_list p" using piece_ok_rotate[OF assms] by simp
  have "0 \<le> rot_index p" "rot_index p < int (length (shape_list p))"
    "shape p = shape_list p ! nat (rot_index p)"
    using assms(1) unfolding piece_ok_def by blast+
  then show "py_get (shape_list p') (rot_index p) = Some (shape p)"
    by (simp add: sl py_get_in_range)
  show "p'\<lparr>rot_index := rot_index p, shape := shape p\<rparr> = p"
    using rotate_ok(1)[OF assms(1), of cw] assms(2) by auto
qed

section \<open>The invariant under locking, dropping and moving\<close>

lemma state_ok_lock_piece:
  assumes "wf_board (board s)" "cols_ok (active s)" "0 \<le> lines s" "level s = lines s div 10"
  shows "\<exists>s'. lock_piece s = Some s' \<and> state_ok s'"
proof -
  obtain b k bg q g where b: "wf_board b" and
    lp: "lock_piece s =
       Some ((clear_lines_and_score (s\<lparr>board := b\<rparr>))
              \<lparr>bag := bg, next_queue := q, rng := g, active := Piece k,
               hold_used := False, grounded := False, lock_start := None,
               lock_resets_left := 15,
               game_over := game_over s \<or>
                 list_ex (blocked (board (clear_lines_and_score (s\<lparr>board := b\<rparr>))))
                   (get_cells (Piece k) 0 0)\<rparr>)"
    using lock_piece_Some[OF assms(1,2)] by metis
  let ?s1 = "clear_lines_and_score (s\<lparr>board := b\<rparr>)"
  have "wf_board (board ?s1)" using b clear_wf[of "s\<lparr>board := b\<rparr>"] by simp
  moreover have "0 \<le> lines ?s1" "level ?s1 = lines ?s1 div 10"
    using clear_counters[of "s\<lparr>board := b\<rparr>"] assms(3,4) by simp_all
  ultimately show ?thesis unfolding lp
    by (simp add: state_ok_def piece_ok_Piece cols_ok_Piece)
qed

lemma state_ok_hard_drop:
  assumes "state_ok s"
  shows "\<exists>s'. hard_drop s = Some s' \<and> state_ok s'"
proof -
  obtain n where n: "0 \<le> n"
    "drop_loop (board s) (active s) 0 = Some ((active s)\<lparr>py := py (active s) + n\<rparr>, 0 + n)"
    using drop_loop_ok[of "board s" "active s" 0] assms by (auto simp: state_ok_def)
  let ?s = "s\<lparr>active := (active s)\<lparr>py := py (active s) + n\<rparr>, score := score s + HARD_DROP_SCORE * n\<rparr>"
  have "hard_drop s = lock_piece ?s" using n(2) by (simp add: hard_drop_def)
  moreover have "\<exists>s'. lock_piece ?s = Some s' \<and> state_ok s'"
    using assms by (intro state_ok_lock_piece) (simp_all add: state_ok_def)
  ultimately show ?thesis by simp
qed

lemma state_ok_soft_drop:
  assumes "state_ok s"
  shows "\<exists>s'. soft_drop s = Some s' \<and> state_ok s'"
  using assms by (simp add: soft_drop_def collision_wf state_ok_def)

lemma state_ok_reset_lock_timer: "state_ok s \<Longrightarrow> state_ok (reset_lock_timer now s)"
  by (simp add: reset_lock_timer_def state_ok_def)

lemma state_ok_move:
  assumes "state_ok s"
  shows "\<exists>s'. move dx now s = Some s' \<and> state_ok s'"
proof (cases "list_ex (blocked (board s)) (get_cells (active s) dx 0)")
  case True
  then show ?thesis using assms by (simp add: move_def collision_wf state_ok_def)
next
  case False
  let ?s1 = "s\<lparr>active := (active s)\<lparr>px := px (active s) + dx\<rparr>\<rparr>"
  have "state_ok ?s1" using assms cols_ok_free_px[OF False] by (simp add: state_ok_def)
  then have "state_ok (if grounded ?s1 then reset_lock_timer now ?s1 else ?s1)"
    by (simp add: state_ok_reset_lock_timer)
  then show ?thesis using False assms by (simp add: move_def collision_wf state_ok_def Let_def)
qed

section \<open>The hold swap\<close>

lemma Piece_respawn:
  "py_get (shape (Piece k)) 0 = Some (shape (Piece k) ! 0)"
  "COLS div 2 - int (length (shape (Piece k) ! 0)) div 2 = px (Piece k)"
  "1 - int (length (shape (Piece k))) = py (Piece k)"
  using PIECES_first[of k] by (simp_all add: Piece_def Let_def py_get_in_range)

lemma hold_action_wf:
  assumes "wf_board (board s)" "\<not> hold_used s"
  obtains k bg q g where
    "hold s = None \<longrightarrow>
       spawn_from_queue (s\<lparr>hold_used := True, hold := Some (kind (active s))\<rparr>) =
         Some (Piece k, s\<lparr>hold_used := True, hold := Some (kind (active s)),
                          bag := bg, next_queue := q, rng := g\<rparr>)"
    "hold s \<noteq> None \<longrightarrow> hold s = Some k \<and> bg = bag s \<and> q = next_queue s \<and> g = rng s"
    "hold_action s =
       Some (s\<lparr>hold_used := True, hold := Some (kind (active s)),
               bag := bg, next_queue := q, rng := g, active := Piece k,
               grounded := False, lock_start := None, lock_resets_left := 15,
               game_over := game_over s \<or> list_ex (blocked (board s)) (get_cells (Piece k) 0 0)\<rparr>)"
proof -
  let ?s0 = "s\<lparr>hold_used := True, hold := Some (kind (active s))\<rparr>"
  have fin: "(do { w \<leftarrow> py_get (shape (Piece k)) 0;
             let p' = (Piece k)\<lparr>px := COLS div 2 - int (length w) div 2,
                        py := - (int (length (shape (Piece k))) - 1)\<rparr>;
             let s2 = t\<lparr>active := p', grounded := False, lock_start := None,
                         lock_resets_left := 15\<rparr>;
             c \<leftarrow> collision (board s2) (active s2) 0 0;
             Some (if c then s2\<lparr>game_over := True\<rparr> else s2) }) =
        Some (t\<lparr>active := Piece k, grounded := False, lock_start := None, lock_resets_left := 15,
               game_over := game_over t \<or> list_ex (blocked (board t)) (get_cells (Piece k) 0 0)\<rparr>)"
    if "wf_board (board t)" for k t
  proof (cases "list_ex (blocked (board t)) (get_cells (Piece k) 0 0)")
    case True
    then show ?thesis using that by (simp add: Piece_respawn collision_wf Let_def)
  next
    case False
    have "t\<lparr>active := Piece k, grounded := False, lock_start := None, lock_resets_left := 15\<rparr> =
          t\<lparr>active := Piece k, grounded := False, lock_start := None, lock_resets_left := 15,
             game_over := game_over t\<rparr>"
      by (rule game_state.equality) simp_all
    then show ?thesis using that False by (simp add: Piece_respawn collision_wf Let_def)
  qed
  show ?thesis
  proof (cases "hold s")
    case None
    obtain k bg q g where sp: "spawn_from_queue ?s0 = Some (Piece k, ?s0\<lparr>bag := bg, next_queue := q, rng := g\<rparr>)"
      using spawn_from_queue_Some[of ?s0] by blast
    have "hold_action s =
       Some (s\<lparr>hold_used := True, hold := Some (kind (active s)),
               bag := bg, next_queue := q, rng := g, active := Piece k,
               grounded := False, lock_start := None, lock_resets_left := 15,
               game_over := game_over s \<or> list_ex (blocked (board s)) (get_cells (Piece k) 0 0)\<rparr>)"
    proof -
      have w0: "wf_board (board (?s0\<lparr>bag := bg, next_queue := q, rng := g\<rparr>))"
        using assms by simp
      show ?thesis
        unfolding hold_action_def using assms(2) None
        apply (simp only: sp if_False option.case Option.bind.simps case_prod_conv)
        apply (simp only: fin[OF w0])
        apply simp
        done
    qed
    then show ?thesis using None sp
      by (intro that[where k=k and bg=bg and q=q and g=g]) simp_all
  next
    case (Some temp)
    have "hold_action s =
       Some (s\<lparr>hold_used := True, hold := Some (kind (active s)),
               bag := bag s, next_queue := next_queue s, rng := rng s, active := Piece temp,
               grounded := False, lock_start := None, lock_resets_left := 15,
               game_over := game_over s \<or> list_ex (blocked (board s)) (get_cells (Piece temp) 0 0)\<rparr>)"
    proof -
      have w0: "wf_board (board ?s0)" using assms by simp
      show ?thesis
        unfolding hold_action_def using assms(2) Some
        apply (simp only: if_False option.case Option.bind.simps case_prod_conv)
        apply (simp only: fin[OF w0])
        apply simp
        done
    qed
    then show ?thesis using Some
      by (intro that[where k=temp and bg="bag s" and q="next_queue s" and g="rng s"]) simp_all
  qed
qed

lemma state_ok_hold_action:
  assumes "state_ok s"
  shows "\<exists>s'. hold_action s = Some s' \<and> state_ok s'"
proof (cases "hold_used s")
  case True
  then show ?thesis using assms by (simp add: hold_action_def)
next
  case False
  have w: "wf_board (board s)" using assms by (simp add: state_ok_def)
  obtain k bg q g where
    "hold_action s =
       Some (s\<lparr>hold_used := True, hold := Some (kind (active s)),
               bag := bg, next_queue := q, rng := g, active := Piece k,
               grounded := False, lock_start := None, lock_resets_left := 15,
               game_over := game_over s \<or> list_ex (blocked (board s)) (get_cells (Piece k) 0 0)\<rparr>)"
    using hold_action_wf[OF w False] by metis
  then show ?thesis using assms by (simp add: state_ok_def piece_ok_Piece cols_ok_Piece)
qed

section \<open>Rotation with kicks\<close>

lemma try_rotate_wf:
  assumes "wf_board (board s)" "piece_ok (active s)"
  obtains p' where "rotate cw (active s) = Some p'" "piece_ok p'"
    "try_rotate_with_kick now cw s =
       (case find (\<lambda>(dx, dy). \<not> list_ex (blocked (board s)) (get_cells p' dx dy)) kicks of
          Some (dx, dy) \<Rightarrow>
            Some (True,
              if grounded s
              then reset_lock_timer now (s\<lparr>active := p'\<lparr>px := px p' + dx, py := py p' + dy\<rparr>\<rparr>)
              else s\<lparr>active := p'\<lparr>px := px p' + dx, py := py p' + dy\<rparr>\<rparr>)
        | None \<Rightarrow> Some (False, s))"
proof -
  obtain p' where r: "rotate cw (active s) = Some p'"
    using rotate_ok(1)[OF assms(2), of cw] by blast
  have ok: "piece_ok p'" using piece_ok_rotate(1)[OF assms(2) r] .
  have rb: "py_get (shape_list p') (rot_index (active s)) = Some (shape (active s))"
    "p'\<lparr>rot_index := rot_index (active s), shape := shape (active s)\<rparr> = active s"
    using rotate_back[OF assms(2) r] by simp_all
  have "try_rotate_with_kick now cw s =
       (case find (\<lambda>(dx, dy). \<not> list_ex (blocked (board s)) (get_cells p' dx dy)) kicks of
          Some (dx, dy) \<Rightarrow>
            Some (True,
              if grounded s
              then reset_lock_timer now (s\<lparr>active := p'\<lparr>px := px p' + dx, py := py p' + dy\<rparr>\<rparr>)
              else s\<lparr>active := p'\<lparr>px := px p' + dx, py := py p' + dy\<rparr>\<rparr>)
        | None \<Rightarrow> Some (False, s))"
  proof (cases "find (\<lambda>(dx, dy). \<not> list_ex (blocked (board s)) (get_cells p' dx dy)) kicks")
    case None
    have "s\<lparr>active := active s\<rparr> = s" by simp
    then show ?thesis
      unfolding try_rotate_with_kick_def Let_def r
      by (simp only: Option.bind.simps kick_loop_wf[OF assms(1)] None option.case rb)
  next
    case (Some k)
    obtain dx dy where k: "k = (dx, dy)" by (cases k)
    show ?thesis
      unfolding try_rotate_with_kick_def Let_def r
      apply (simp only: Option.bind.simps kick_loop_wf[OF assms(1)] Some k option.case case_prod_conv)
      apply simp
      done
  qed
  then show ?thesis by (rule that[OF r ok])
qed

lemma state_ok_try_rotate:
  assumes "state_ok s"
  shows "\<exists>r s'. try_rotate_with_kick now cw s = Some (r, s') \<and> state_ok s'"
proof -
  have w: "wf_board (board s)" and p: "piece_ok (active s)"
    using assms by (simp_all add: state_ok_def)
  show ?thesis
  proof (rule try_rotate_wf[OF w p, of cw now])
    fix p'
    assume ok: "piece_ok p'"
    assume eq: "try_rotate_with_kick now cw s =
       (case find (\<lambda>(dx, dy). \<not> list_ex (blocked (board s)) (get_cells p' dx dy)) kicks of
          Some (dx, dy) \<Rightarrow>
            Some (True,
              if grounded s
              then reset_lock_timer now (s\<lparr>active := p'\<lparr>px := px p' + dx, py := py p' + dy\<rparr>\<rparr>)
              else s\<lparr>active := p'\<lparr>px := px p' + dx, py := py p' + dy\<rparr>\<rparr>)
        | None \<Rightarrow> Some (False, s))"
    show ?thesis
    proof (cases "find (\<lambda>(dx, dy). \<not> list_ex (blocked (board s)) (get_cells p' dx dy)) kicks")
      case None
      then show ?thesis using eq assms by auto
    next
      case (Some k)
      obtain dx dy where k: "k = (dx, dy)" by (cases k)
      have free: "\<not> list_ex (blocked (board s)) (get_cells p' dx dy)"
        using Some unfolding k find_Some_iff by auto
      let ?s1 = "s\<lparr>active := p'\<lparr>px := px p' + dx, py := py p' + dy\<rparr>\<rparr>"
      have "state_ok ?s1" using assms ok cols_ok_free[OF free] by (simp add: state_ok_def)
      then have "state_ok (if grounded s then reset_lock_timer now ?s1 else ?s1)"
        by (simp add: state_ok_reset_lock_timer)
      then show ?thesis using eq Some k by auto
    qed
  qed
qed

section \<open>The tick\<close>

lemma state_ok_tick:
  assumes "state_ok s"
  shows "\<exists>s'. tick now down s = Some s' \<and> state_ok s'"
proof -
  have w: "wf_board (board s)" using assms by (simp add: state_ok_def)
  have upd: "state_ok (t\<lparr>last_fall := v\<rparr>) = state_ok t" for t v
    by (simp add: state_ok_def)
  let ?g = "if \<not> grounded s then s\<lparr>grounded := True, lock_start := Some now\<rparr> else s"
  have g: "state_ok ?g" using assms by (simp add: state_ok_def)
  then obtain s1 where s1: "lock_piece ?g = Some s1" "state_ok s1"
    using state_ok_lock_piece[of ?g] by (auto simp: state_ok_def)
  show ?thesis
  proof (cases "list_ex (blocked (board s)) (get_cells (active s) 0 1)")
    case True
    show ?thesis
    proof (cases "lock_due now (lock_start ?g)")
      case due: True
      then show ?thesis using True w s1 assms
        by (auto simp: tick_def collision_wf Let_def upd)
    next
      case False
      then show ?thesis using True w g assms
        by (auto simp: tick_def collision_wf Let_def upd)
    qed
  next
    case False
    have "state_ok (s\<lparr>active := (active s)\<lparr>py := py (active s) + 1\<rparr>,
            grounded := False, lock_start := None\<rparr>)"
      using assms by (simp add: state_ok_def)
    then show ?thesis using False w assms
      by (auto simp: tick_def collision_wf Let_def upd)
  qed
qed

section \<open>Every reachable state\<close>

lemma GameState_form:
  "\<exists>b q r k. GameState g now =
     Some \<lparr>board = replicate (nat ROWS) (replicate (nat COLS) None),
           bag = b, next_queue = q, active = Piece k,
           hold = None, hold_used = False,
           last_fall = now, fall_ms = BASE_FALL_MS,
           paused = False, game_over = False,
           score = 0, lines = 0, level = 0,
           grounded = False, lock_start = None, lock_resets_left = 15,
           rng = r\<rparr>"
proof -
  obtain b g1 where nb: "new_bag g = (b, g1)" by (cases "new_bag g")
  let ?s0 = "\<lparr>board = replicate (nat ROWS) (replicate (nat COLS) None),
                bag = b, next_queue = [], active = Piece KI,
                hold = None, hold_used = False,
                last_fall = now, fall_ms = BASE_FALL_MS,
                paused = False, game_over = False,
                score = 0, lines = 0, level = 0,
                grounded = False, lock_start = None, lock_resets_left = 15,
                rng = g1\<rparr>"
  have step: "\<exists>b q g. fill_next (?s0\<lparr>bag := b0, next_queue := q0, rng := g0\<rparr>) =
      Some (?s0\<lparr>bag := b, next_queue := q, rng := g\<rparr>)" for b0 q0 g0
    using fill_next_Some[of "?s0\<lparr>bag := b0, next_queue := q0, rng := g0\<rparr>"] by auto
  have s0: "?s0 = ?s0\<lparr>bag := b, next_queue := [], rng := g1\<rparr>" by simp
  obtain b1 q1 r1 where f1: "fill_next ?s0 = Some (?s0\<lparr>bag := b1, next_queue := q1, rng := r1\<rparr>)"
    using step[where ?b0.0=b and ?q0.0="[]" and ?g0.0=g1] by auto
  obtain b2 q2 r2 where f2: "fill_next (?s0\<lparr>bag := b1, next_queue := q1, rng := r1\<rparr>) =
      Some (?s0\<lparr>bag := b2, next_queue := q2, rng := r2\<rparr>)"
    using step by blast
  obtain b3 q3 r3 where f3: "fill_next (?s0\<lparr>bag := b2, next_queue := q2, rng := r2\<rparr>) =
      Some (?s0\<lparr>bag := b3, next_queue := q3, rng := r3\<rparr>)"
    using step by blast
  obtain b4 q4 r4 where f4: "fill_next (?s0\<lparr>bag := b3, next_queue := q3, rng := r3\<rparr>) =
      Some (?s0\<lparr>bag := b4, next_queue := q4, rng := r4\<rparr>)"
    using step by blast
  obtain b5 q5 r5 where f5: "fill_next (?s0\<lparr>bag := b4, next_queue := q4, rng := r4\<rparr>) =
      Some (?s0\<lparr>bag := b5, next_queue := q5, rng := r5\<rparr>)"
    using step by blast
  obtain k b6 q6 r6 where sp: "spawn_from_queue (?s0\<lparr>bag := b5, next_queue := q5, rng := r5\<rparr>) =
      Some (Piece k, ?s0\<lparr>bag := b6, next_queue := q6, rng := r6\<rparr>)"
    using spawn_from_queue_Some[of "?s0\<lparr>bag := b5, next_queue := q5, rng := r5\<rparr>"] by auto
  have "GameState g now = Some (?s0\<lparr>bag := b6, next_queue := q6, rng := r6, active := Piece k\<rparr>)"
    unfolding GameState_def nb
    by (simp only: Let_def case_prod_conv f1 f2 f3 f4 f5 sp Option.bind.simps)
  then show ?thesis by auto
qed

lemma GameState_Some: "\<exists>s. GameState g now = Some s \<and> state_ok s"
proof -
  have "wf_board (replicate (nat ROWS) (replicate (nat COLS) None))"
    by (simp add: wf_board_def ROWS_def COLS_def)
  then show ?thesis using GameState_form[of g now]
    by (auto simp: state_ok_def piece_ok_Piece cols_ok_Piece)
qed

lemma state_ok_step:
  assumes "state_ok s"
  shows "\<exists>s'. step ev s = Some s' \<and> state_ok s'"
proof (cases ev)
  case (Tick now down)
  then show ?thesis using state_ok_tick[OF assms] by simp
next
  case KeyHold
  then show ?thesis using state_ok_hold_action[OF assms] by simp
next
  case (KeyRotate cw now)
  then show ?thesis using state_ok_try_rotate[OF assms, of now cw] by auto
next
  case KeyHardDrop
  then show ?thesis using state_ok_hard_drop[OF assms] by simp
next
  case KeySoftDrop
  then show ?thesis using state_ok_soft_drop[OF assms] by simp
next
  case (KeyLeft now)
  then show ?thesis using state_ok_move[OF assms] by simp
next
  case (KeyRight now)
  then show ?thesis using state_ok_move[OF assms] by simp
next
  case KeyPause
  then show ?thesis using assms by (simp add: toggle_pause_def state_ok_def)
next
  case (KeyRestart g now)
  then show ?thesis using GameState_Some by simp
qed

lemma reachable_state_ok: "reachable s \<Longrightarrow> state_ok s"
proof (induction rule: reachable.induct)
  case (init g now s)
  then show ?case using GameState_Some[of g now] by simp
next
  case (step s ev s')
  then show ?case using state_ok_step[of s ev] by auto
qed

lemma reachable_step_Some: "reachable s \<Longrightarrow> \<exists>s'. step ev s = Some s' \<and> reachable s'"
  using state_ok_step[OF reachable_state_ok, of s ev] reachable.step by blast

section \<open>An example state\<close>

lemma snd_shuffle_from: "snd (shuffle_from i g xs) = (\<lambda>n. g (i + n))"
  by (induction i arbitrary: g xs) (simp_all add: Let_def)

lemma fst_new_bag_zero: "fst (new_bag (\<lambda>_. 0)) = [KJ, KL, KO, KS, KT, KZ, KI]"
  by code_simp

lemma new_bag_zero: "new_bag (\<lambda>_. 0) = ([KJ, KL, KO, KS, KT, KZ, KI], (\<lambda>_. 0))"
  using fst_new_bag_zero snd_shuffle_from[of "length PIECE_KEYS - 1" "\<lambda>_. 0" PIECE_KEYS]
  by (simp add: new_bag_def shuffle_def prod_eq_iff)

lemma GameState_example: "GameState (\<lambda>_. 0) 0 = Some example_state"
  by (simp add: GameState_def new_bag_zero fill_next_def spawn_from_queue_def example_state_def
      ROWS_def COLS_def BASE_FALL_MS_def)

lemma reachable_example: "reachable example_state"
  using reachable.init[OF GameState_example] .

lemma wf_example: "wf_board (board example_state)"
  by (simp add: example_state_def wf_board_def ROWS_def COLS_def)

lemma blocked_example:
  "blocked (board example_state) (x, y) \<longleftrightarrow> x < 0 \<or> x \<ge> 10 \<or> y \<ge> 20"
proof (cases "0 \<le> x \<and> x < 10 \<and> 0 \<le> y \<and> y < 20")
  case True
  then have "nat y < 20" "nat x < 10" by auto
  then have "replicate 20 (replicate 10 (None :: cell)) ! nat y ! nat x = None" by simp
  then show ?thesis using True by (simp add: blocked_def example_state_def COLS_def ROWS_def)
next
  case False
  then show ?thesis by (auto simp: blocked_def example_state_def COLS_def ROWS_def)
qed

lemma collision_example:
  "collision (board example_state) p xo yo =
     Some (list_ex (\<lambda>(x, y). x < 0 \<or> x \<ge> 10 \<or> y \<ge> 20) (get_cells p xo yo))"
proof -
  have "blocked (board example_state) = (\<lambda>(x, y). x < 0 \<or> x \<ge> 10 \<or> y \<ge> 20)"
    by (auto simp: blocked_example fun_eq_iff)
  then show ?thesis by (simp add: collision_wf[OF wf_example])
qed

lemma active_example: "active example_state = Piece KJ"
  by (simp add: example_state_def)

section \<open>Evaluating the examples\<close>

lemma soft_drop_example:
  "soft_drop example_state =
     Some (example_state\<lparr>active := (Piece KJ)\<lparr>py := -1\<rparr>, score := 1\<rparr>)"
proof -
  have g: "get_cells (Piece KJ) 0 1 = [(4, -1), (4, 0), (5, 0), (6, 0)]"
    by (subst get_cells_shift) (simp add: get_cells_Piece)
  have p: "py (Piece KJ) = -2"
    by (simp add: Piece_def PIECES_KJ Let_def)
  have c: "collision (board example_state) (active example_state) 0 1 = Some False"
    by (simp add: collision_example active_example g)
  show ?thesis
    using c by (simp add: soft_drop_def active_example p SOFT_DROP_SCORE_def) (simp add: example_state_def)
qed

lemma fall_interval_1: "fall_interval 1 = 680"
  by (simp add: fall_interval_def dbl_mul_def dbl_pow_def dbl_of_int_def dbl_trunc_def
      LEVEL_SPEEDUP_def round_ratio_def BASE_FALL_MS_def bit_length.simps Let_def)

lemma fall_interval_2: "fall_interval 2 = 577"
  by (simp add: fall_interval_def dbl_mul_def dbl_pow_def dbl_of_int_def dbl_trunc_def
      LEVEL_SPEEDUP_def round_ratio_def BASE_FALL_MS_def bit_length.simps Let_def)

lemma clear_full_row:
  "clear_lines_and_score full_row_state =
     full_row_state\<lparr>board := replicate 20 (replicate 10 None),
                    score := 100, lines := 10, level := 1, fall_ms := 680\<rparr>"
proof -
  have f: "filter (\<lambda>row. \<exists>cell \<in> set row. cell = None) (board full_row_state) =
        replicate 19 (replicate 10 None)"
    by (simp add: full_row_state_def)
  have r: "replicate 10 None # replicate 19 (replicate 10 (None :: cell)) =
      replicate 20 (replicate 10 None)"
    using replicate_Suc[of 19 "replicate 10 (None :: cell)"] by simp
  have s: "SCORES_get 1 0 = 100" by (simp add: SCORES_get_def SCORES_def)
  have v: "score full_row_state = 0" "lines full_row_state = 9" "level full_row_state = 0"
    by (simp_all add: full_row_state_def example_state_def)
  show ?thesis
    unfolding clear_lines_and_score_def f Let_def
    by (simp add: r s v fall_interval_1 ROWS_def COLS_def)
qed

section \<open>Consuming the bag\<close>

lemma fill_n_take:
  "n \<le> length (bag s) \<Longrightarrow>
     fill_n n s = Some (s\<lparr>next_queue := next_queue s @ take n (bag s), bag := drop n (bag s)\<rparr>)"
proof (induction n arbitrary: s)
  case 0
  then show ?case by simp
next
  case (Suc n)
  then have ne: "bag s \<noteq> []" by auto
  then obtain k rest where b: "bag s = k # rest" by (cases "bag s") auto
  let ?s = "s\<lparr>next_queue := next_queue s @ [hd (bag s)], bag := tl (bag s)\<rparr>"
  have "n \<le> length (bag ?s)" using Suc.prems b by simp
  then show ?case using Suc.IH[of ?s] b by (simp add: fill_next_nonempty[OF ne])
qed

lemma fill_n_whole_bag:
  assumes "bag s = []"
  shows "fill_n 7 s =
     Some (s\<lparr>next_queue := next_queue s @ fst (new_bag (rng s)), bag := [],
            rng := snd (new_bag (rng s))\<rparr>)"
proof -
  let ?B = "fst (new_bag (rng s))"
  let ?s = "s\<lparr>next_queue := next_queue s @ [hd ?B], bag := tl ?B, rng := snd (new_bag (rng s))\<rparr>"
  have len: "length ?B = 7" by (rule length_new_bag)
  then have B: "?B = hd ?B # tl ?B" by (cases ?B) auto
  have "fill_n 7 s = fill_n 6 ?s"
    using fill_next_empty[OF assms] by (simp add: eval_nat_numeral)
  also have "\<dots> = Some (?s\<lparr>next_queue := next_queue ?s @ take 6 (bag ?s), bag := drop 6 (bag ?s)\<rparr>)"
    using len by (intro fill_n_take) simp
  also have "\<dots> = Some (s\<lparr>next_queue := next_queue s @ ?B, bag := [],
            rng := snd (new_bag (rng s))\<rparr>)"
  proof -
    have "length (tl ?B) = 6" using len by simp
    then have "take 6 (tl ?B) = tl ?B" by simp
    then have "hd ?B # take 6 (tl ?B) = ?B" using B by simp
    then show ?thesis using len by simp
  qed
  finally show ?thesis .
qed

section \<open>Evaluating the hold swap\<close>

lemma hold_action_example:
  "hold_action example_state =
     Some (example_state\<lparr>bag := [], next_queue := [KO, KS, KT, KZ, KI], active := Piece KL,
             hold := Some KJ, hold_used := True\<rparr>)"
proof -
  let ?s0 = "example_state\<lparr>hold_used := True, hold := Some (kind (active example_state))\<rparr>"
  have sp: "spawn_from_queue ?s0 =
      Some (Piece KL, ?s0\<lparr>bag := [], next_queue := [KO, KS, KT, KZ, KI], rng := rng example_state\<rparr>)"
    by (simp add: spawn_from_queue_def fill_next_def example_state_def)
  have w: "\<not> hold_used example_state" "hold example_state = None"
    by (simp_all add: example_state_def)
  have free: "\<not> list_ex (blocked (board example_state)) (get_cells (Piece KL) 0 0)"
    by (simp add: get_cells_Piece blocked_example)
  show ?thesis
  proof (rule hold_action_wf[OF wf_example w(1)])
    fix k bg q g
    assume a: "hold example_state = None \<longrightarrow>
       spawn_from_queue ?s0 =
         Some (Piece k, example_state\<lparr>hold_used := True, hold := Some (kind (active example_state)),
                          bag := bg, next_queue := q, rng := g\<rparr>)"
    assume e: "hold_action example_state =
       Some (example_state\<lparr>hold_used := True, hold := Some (kind (active example_state)),
               bag := bg, next_queue := q, rng := g, active := Piece k,
               grounded := False, lock_start := None, lock_resets_left := 15,
               game_over := game_over example_state \<or>
                 list_ex (blocked (board example_state)) (get_cells (Piece k) 0 0)\<rparr>)"
    have "Piece k = Piece KL \<and> bg = [] \<and> q = [KO, KS, KT, KZ, KI] \<and> g = rng example_state"
      using a w(2) unfolding sp
      by (metis (no_types, lifting) Pair_inject option.inject game_state.select_convs(2,3,17)
          game_state.surjective game_state.update_convs(2,3,17))
    then show ?thesis using e free by (simp add: active_example) (simp add: example_state_def)
  qed
qed




section \<open>Frame lemmas\<close>

lemma reset_lock_timer_frame [simp]:
  "board (reset_lock_timer now s) = board s"
  "active (reset_lock_timer now s) = active s"
  "bag (reset_lock_timer now s) = bag s"
  "next_queue (reset_lock_timer now s) = next_queue s"
  "hold (reset_lock_timer now s) = hold s"
  "hold_used (reset_lock_timer now s) = hold_used s"
  "last_fall (reset_lock_timer now s) = last_fall s"
  "fall_ms (reset_lock_timer now s) = fall_ms s"
  "paused (reset_lock_timer now s) = paused s"
  "game_over (reset_lock_timer now s) = game_over s"
  "score (reset_lock_timer now s) = score s"
  "lines (reset_lock_timer now s) = lines s"
  "level (reset_lock_timer now s) = level s"
  "grounded (reset_lock_timer now s) = grounded s"
  "rng (reset_lock_timer now s) = rng s"
  by (simp_all add: reset_lock_timer_def)

lemma find_free_cong:
  assumes "wf_board b"
  shows "find (\<lambda>(dx, dy). collision b p dx dy = Some False) ks =
         find (\<lambda>(dx, dy). \<not> list_ex (blocked b) (get_cells p dx dy)) ks"
  by (rule find_cong) (auto simp: collision_wf[OF assms])

section \<open>The board under the operations that do not lock\<close>

lemma fill_next_frame:
  assumes "fill_next s = Some s'"
  shows "\<exists>b q g. s' = s\<lparr>bag := b, next_queue := q, rng := g\<rparr>"
  using fill_next_Some[of s] assms by auto

lemma spawn_from_queue_frame:
  assumes "spawn_from_queue s = Some (p, s')"
  shows "\<exists>k b q g. p = Piece k \<and> s' = s\<lparr>bag := b, next_queue := q, rng := g\<rparr>"
  using spawn_from_queue_Some[of s] assms by auto

lemma move_board: "move dx now s = Some s' \<Longrightarrow> board s' = board s"
  by (auto simp: move_def Let_def split: bind_splits if_splits)

lemma soft_drop_board: "soft_drop s = Some s' \<Longrightarrow> board s' = board s"
  by (auto simp: soft_drop_def split: bind_splits if_splits)

lemma try_rotate_board: "try_rotate_with_kick now cw s = Some (r, s') \<Longrightarrow> board s' = board s"
  by (auto simp: try_rotate_with_kick_def Let_def split: bind_splits if_splits option.splits)

lemma hold_action_board:
  assumes "hold_action s = Some s'"
  shows "board s' = board s"
proof (cases "hold_used s")
  case True
  then show ?thesis using assms by (simp add: hold_action_def)
next
  case False
  let ?s0 = "s\<lparr>hold_used := True, hold := Some (kind (active s))\<rparr>"
  obtain p s1 where sp: "(case hold s of
                  None \<Rightarrow> spawn_from_queue ?s0
                | Some temp \<Rightarrow> Some (Piece temp, ?s0)) = Some (p, s1)"
    using assms False by (auto simp: hold_action_def split: bind_splits)
  have "board s1 = board s"
    using sp spawn_from_queue_frame[of ?s0 p s1] by (auto split: option.splits)
  then show ?thesis using assms False sp
    by (auto simp: hold_action_def Let_def split: bind_splits if_splits)
qed

lemma tick_board:
  assumes "tick now down s = Some s'" "\<not> tick_locks now down s"
  shows "board s' = board s"
  using assms
  by (auto simp: tick_def tick_locks_def Let_def split: bind_splits if_splits)

section \<open>The counters\<close>


lemma fall_interval_ge: "80 \<le> fall_interval lvl"
  by (simp add: fall_interval_def)


lemma lock_piece_counters:
  assumes "lock_piece s = Some s'"
  shows "\<exists>b. lock_cells board_set (kind (active s)) (get_cells (active s) 0 0) (board s) = Some b \<and>
     score s' = score (clear_lines_and_score (s\<lparr>board := b\<rparr>)) \<and>
     lines s' = lines (clear_lines_and_score (s\<lparr>board := b\<rparr>)) \<and>
     level s' = level (clear_lines_and_score (s\<lparr>board := b\<rparr>)) \<and>
     fall_ms s' = fall_ms (clear_lines_and_score (s\<lparr>board := b\<rparr>))"
proof -
  obtain b p s1 where
    lc: "lock_cells board_set (kind (active s)) (get_cells (active s) 0 0) (board s) = Some b" and
    sp: "spawn_from_queue (clear_lines_and_score (s\<lparr>board := b\<rparr>)) = Some (p, s1)"
    using assms by (auto simp: lock_piece_def split: bind_splits)
  obtain bg q g where "s1 = (clear_lines_and_score (s\<lparr>board := b\<rparr>))\<lparr>bag := bg, next_queue := q, rng := g\<rparr>"
    using spawn_from_queue_frame[OF sp] by blast
  then show ?thesis using assms lc sp
    by (auto simp: lock_piece_def Let_def split: bind_splits if_splits)
qed




lemma counters_unchanged:
  "move dx now s = Some s' \<Longrightarrow>
     score s' = score s \<and> lines s' = lines s \<and> level s' = level s \<and> fall_ms s' = fall_ms s"
  "try_rotate_with_kick now cw s = Some (r, s') \<Longrightarrow>
     score s' = score s \<and> lines s' = lines s \<and> level s' = level s \<and> fall_ms s' = fall_ms s"
  "soft_drop s = Some s' \<Longrightarrow>
     (score s' = score s \<or> score s' = score s + SOFT_DROP_SCORE) \<and>
     lines s' = lines s \<and> level s' = level s \<and> fall_ms s' = fall_ms s"
    apply (auto simp: move_def Let_def split: bind_splits if_splits)[1]
   apply (auto simp: try_rotate_with_kick_def Let_def split: bind_splits if_splits option.splits)[1]
  apply (auto simp: soft_drop_def split: bind_splits if_splits)[1]
  done

lemma hold_action_counters:
  assumes "hold_action s = Some s'"
  shows "score s' = score s \<and> lines s' = lines s \<and> level s' = level s \<and> fall_ms s' = fall_ms s"
proof (cases "hold_used s")
  case True
  then show ?thesis using assms by (simp add: hold_action_def)
next
  case False
  let ?s0 = "s\<lparr>hold_used := True, hold := Some (kind (active s))\<rparr>"
  obtain p s1 where sp: "(case hold s of
                  None \<Rightarrow> spawn_from_queue ?s0
                | Some temp \<Rightarrow> Some (Piece temp, ?s0)) = Some (p, s1)"
    using assms False by (auto simp: hold_action_def split: bind_splits)
  have "score s1 = score s \<and> lines s1 = lines s \<and> level s1 = level s \<and> fall_ms s1 = fall_ms s"
    using sp spawn_from_queue_frame[of ?s0 p s1] by (auto split: option.splits)
  then show ?thesis using assms False sp
    by (auto simp: hold_action_def Let_def split: bind_splits if_splits)
qed

section \<open>The steps of a stalling cycle\<close>








section \<open>One stalling cycle\<close>


section \<open>The stalling trace\<close>










section \<open>Board accesses stay inside the grid\<close>

text \<open>Claim C1. No operation references a board cell outside \<open>[0,COLS) \<times> [0,ROWS)\<close>.
  In every reachable state: \<open>collision\<close>, for any piece and offset, gives the result it
  gives when the board subscript refuses every cell outside the grid, and it does not
  raise; every filled cell of the active piece has its column in \<open>[0,COLS)\<close>; the loop
  of \<open>lock_piece\<close>, run on the active piece at its row or at any row it is dropped to,
  gives the result it gives when the assignment refuses every cell outside the grid, and
  it does not raise; and no event of the main loop raises.\<close>

theorem board_access_in_grid:
  assumes "reachable s"
  shows
    "(\<forall>p xo yo.
        collision (board s) p xo yo =
          collision_cells (grid_get (board s)) (get_cells p xo yo) \<and>
        collision (board s) p xo yo \<noteq> None) \<and>
     (\<forall>(x, y) \<in> set (get_cells (active s) 0 0). 0 \<le> x \<and> x < COLS) \<and>
     (\<forall>v.
        lock_cells board_set (kind (active s)) (get_cells ((active s)\<lparr>py := v\<rparr>) 0 0) (board s) =
          lock_cells grid_set (kind (active s)) (get_cells ((active s)\<lparr>py := v\<rparr>) 0 0) (board s) \<and>
        lock_cells board_set (kind (active s)) (get_cells ((active s)\<lparr>py := v\<rparr>) 0 0) (board s)
          \<noteq> None) \<and>
     (\<forall>ev. step ev s \<noteq> None)"
proof -
  have ok: "state_ok s" using assms by (rule reachable_state_ok)
  then have w: "wf_board (board s)" and c: "cols_ok (active s)"
    by (simp_all add: state_ok_def)
  have a: "collision (board s) p xo yo =
          collision_cells (grid_get (board s)) (get_cells p xo yo) \<and>
        collision (board s) p xo yo \<noteq> None" for p xo yo
    using w by (simp add: collision_def collision_cells_grid collision_cells_wf)
  have b: "\<forall>(x, y) \<in> set (get_cells (active s) 0 0). 0 \<le> x \<and> x < COLS"
    using c by (simp add: cols_ok_def)
  have d: "lock_cells board_set (kind (active s)) (get_cells ((active s)\<lparr>py := v\<rparr>) 0 0) (board s) =
          lock_cells grid_set (kind (active s)) (get_cells ((active s)\<lparr>py := v\<rparr>) 0 0) (board s) \<and>
        lock_cells board_set (kind (active s)) (get_cells ((active s)\<lparr>py := v\<rparr>) 0 0) (board s)
          \<noteq> None" for v
  proof -
    have "cols_ok ((active s)\<lparr>py := v\<rparr>)" using c by simp
    then have cs: "\<forall>(x, y) \<in> set (get_cells ((active s)\<lparr>py := v\<rparr>) 0 0). 0 \<le> x \<and> x < COLS"
      by (simp add: cols_ok_def)
    show ?thesis
      using lock_cells_grid[OF cs, of "kind (active s)" "board s"]
        lock_cells_wf[OF w cs, of "kind (active s)"] by auto
  qed
  have e: "step ev s \<noteq> None" for ev
    using state_ok_step[OF ok, of ev] by auto
  show ?thesis using a b d e by blast
qed

theorem board_access_in_grid_witness:
  "reachable example_state \<and>
   get_cells (active example_state) 0 0 = [(4, -2), (4, -1), (5, -1), (6, -1)] \<and>
   collision (board example_state) (active example_state) 0 1 =
     collision_cells (grid_get (board example_state)) (get_cells (active example_state) 0 1) \<and>
   collision (board example_state) (active example_state) 0 1 \<noteq> None \<and>
   lock_cells board_set KJ (get_cells ((active example_state)\<lparr>py := 18\<rparr>) 0 0) (board example_state) =
     lock_cells grid_set KJ (get_cells ((active example_state)\<lparr>py := 18\<rparr>) 0 0) (board example_state) \<and>
   lock_cells board_set KJ (get_cells ((active example_state)\<lparr>py := 18\<rparr>) 0 0) (board example_state)
     \<noteq> None \<and>
   step KeyHardDrop example_state \<noteq> None"
proof -
  have k: "kind (active example_state) = KJ" by (simp add: example_state_def)
  have g: "get_cells (active example_state) 0 0 = [(4, -2), (4, -1), (5, -1), (6, -1)]"
    by (simp add: example_state_def get_cells_Piece)
  show ?thesis
    using board_access_in_grid[OF reachable_example] reachable_example g unfolding k by blast
qed

section \<open>The bag is a permutation\<close>

text \<open>Claim C2. Every bag that \<open>new_bag\<close> produces holds each of the seven kinds exactly
  once. \<open>_fill_next\<close> moves the head of the bag to the end of the queue, and it builds a
  new bag first exactly when the bag is empty. Hence seven calls that start on an empty
  bag append one whole new bag, a permutation of the seven kinds, to the queue and leave
  the bag empty again.\<close>

theorem bag_permutation:
  "mset (fst (new_bag g)) = mset PIECE_KEYS \<and>
   (\<forall>k. count (mset (fst (new_bag g))) k = 1) \<and>
   (bag s \<noteq> [] \<longrightarrow>
      fill_next s = Some (s\<lparr>next_queue := next_queue s @ [hd (bag s)], bag := tl (bag s)\<rparr>)) \<and>
   (bag s = [] \<longrightarrow>
      fill_next s =
        Some (s\<lparr>next_queue := next_queue s @ [hd (fst (new_bag (rng s)))],
               bag := tl (fst (new_bag (rng s))), rng := snd (new_bag (rng s))\<rparr>)) \<and>
   (bag s = [] \<longrightarrow>
      fill_n 7 s =
        Some (s\<lparr>next_queue := next_queue s @ fst (new_bag (rng s)), bag := [],
               rng := snd (new_bag (rng s))\<rparr>))"
proof -
  have "count (mset PIECE_KEYS) k = 1" for k
    by (cases k) (simp_all add: PIECE_KEYS_def)
  then have "\<forall>k. count (mset (fst (new_bag g))) k = 1"
    by (simp add: mset_new_bag)
  then show ?thesis
    using mset_new_bag fill_next_nonempty fill_next_empty fill_n_whole_bag by blast
qed

theorem bag_permutation_witness:
  "bag example_state \<noteq> [] \<and>
   fill_next example_state =
     Some (example_state\<lparr>next_queue := [KL, KO, KS, KT, KZ, KI], bag := []\<rparr>) \<and>
   bag (example_state\<lparr>bag := []\<rparr>) = [] \<and>
   fill_next (example_state\<lparr>bag := []\<rparr>) =
     Some (example_state\<lparr>next_queue := [KL, KO, KS, KT, KZ, KJ],
             bag := [KL, KO, KS, KT, KZ, KI]\<rparr>) \<and>
   fill_n 7 (example_state\<lparr>bag := []\<rparr>) =
     Some (example_state\<lparr>next_queue := [KL, KO, KS, KT, KZ, KJ, KL, KO, KS, KT, KZ, KI],
             bag := []\<rparr>)"
  using bag_permutation[of "\<lambda>_. 0" example_state]
    bag_permutation[of "\<lambda>_. 0" "example_state\<lparr>bag := []\<rparr>"]
  by (simp add: example_state_def new_bag_zero)

section \<open>Rotation with wall kicks\<close>

text \<open>Claim C3. On a well-formed board and a consistent active piece,
  \<open>try_rotate_with_kick\<close> first turns the piece to the next (or previous) rotation
  state. If some offset of the sequence (0,0), (-1,0), (1,0), (-2,0), (2,0), (0,-1) leaves
  the turned piece free of collision, the call returns True, the active piece is the
  turned piece moved by the first such offset, and the new placement does not collide;
  nothing else changes, but the lock timer when the piece is grounded. If every offset
  collides, the call returns False and the whole state, with the rotation index, the
  shape and the position of the piece, is as before the call.\<close>

theorem rotate_with_kick:
  assumes "wf_board (board s)" "piece_ok (active s)"
  shows
    "\<exists>p'. rotate cw (active s) = Some p' \<and>
       rot_index p' =
         (if cw then (rot_index (active s) + 1) mod int (length (shape_list (active s)))
          else (rot_index (active s) - 1) mod int (length (shape_list (active s)))) \<and>
       shape p' = shape_list (active s) ! nat (rot_index p') \<and>
       px p' = px (active s) \<and> py p' = py (active s) \<and>
       (case find (\<lambda>(dx, dy). collision (board s) p' dx dy = Some False)
               [(0,0), (-1,0), (1,0), (-2,0), (2,0), (0,-1)] of
          Some (dx, dy) \<Rightarrow>
            (\<exists>s'. try_rotate_with_kick now cw s = Some (True, s') \<and>
               active s' = p'\<lparr>px := px p' + dx, py := py p' + dy\<rparr> \<and>
               collision (board s') (active s') 0 0 = Some False \<and>
               s' = (if grounded s
                     then reset_lock_timer now (s\<lparr>active := p'\<lparr>px := px p' + dx, py := py p' + dy\<rparr>\<rparr>)
                     else s\<lparr>active := p'\<lparr>px := px p' + dx, py := py p' + dy\<rparr>\<rparr>))
        | None \<Rightarrow> try_rotate_with_kick now cw s = Some (False, s))"
proof (rule try_rotate_wf[OF assms, of cw now])
  fix p'
  assume r: "rotate cw (active s) = Some p'"
  assume eq: "try_rotate_with_kick now cw s =
       (case find (\<lambda>(dx, dy). \<not> list_ex (blocked (board s)) (get_cells p' dx dy)) kicks of
          Some (dx, dy) \<Rightarrow>
            Some (True,
              if grounded s
              then reset_lock_timer now (s\<lparr>active := p'\<lparr>px := px p' + dx, py := py p' + dy\<rparr>\<rparr>)
              else s\<lparr>active := p'\<lparr>px := px p' + dx, py := py p' + dy\<rparr>\<rparr>)
        | None \<Rightarrow> Some (False, s))"
  let ?f = "find (\<lambda>(dx, dy). collision (board s) p' dx dy = Some False)
               [(0,0), (-1,0), (1,0), (-2,0), (2,0), (0,-1)]"
  have f: "?f = find (\<lambda>(dx, dy). \<not> list_ex (blocked (board s)) (get_cells p' dx dy)) kicks"
    unfolding kicks_def by (rule find_free_cong[OF assms(1)])
  have rot: "rot_index p' =
         (if cw then (rot_index (active s) + 1) mod int (length (shape_list (active s)))
          else (rot_index (active s) - 1) mod int (length (shape_list (active s))))"
      "shape p' = shape_list (active s) ! nat (rot_index p')"
      "px p' = px (active s)" "py p' = py (active s)"
    using rotate_ok(1)[OF assms(2), of cw] r by auto
  have tail: "case ?f of
          Some (dx, dy) \<Rightarrow>
            (\<exists>s'. try_rotate_with_kick now cw s = Some (True, s') \<and>
               active s' = p'\<lparr>px := px p' + dx, py := py p' + dy\<rparr> \<and>
               collision (board s') (active s') 0 0 = Some False \<and>
               s' = (if grounded s
                     then reset_lock_timer now (s\<lparr>active := p'\<lparr>px := px p' + dx, py := py p' + dy\<rparr>\<rparr>)
                     else s\<lparr>active := p'\<lparr>px := px p' + dx, py := py p' + dy\<rparr>\<rparr>))
        | None \<Rightarrow> try_rotate_with_kick now cw s = Some (False, s)"
  proof (cases "find (\<lambda>(dx, dy). \<not> list_ex (blocked (board s)) (get_cells p' dx dy)) kicks")
    case None
    have "try_rotate_with_kick now cw s = Some (False, s)" using eq unfolding None by simp
    then show ?thesis unfolding f None by simp
  next
    case (Some k)
    obtain dx dy where k: "k = (dx, dy)" by (cases k)
    have free: "\<not> list_ex (blocked (board s)) (get_cells p' dx dy)"
      using Some unfolding k find_Some_iff by auto
    then have c: "collision (board s) (p'\<lparr>px := px p' + dx, py := py p' + dy\<rparr>) 0 0 = Some False"
      using assms(1) by (simp add: collision_wf get_cells_moved)
    have "try_rotate_with_kick now cw s =
        Some (True,
              if grounded s
              then reset_lock_timer now (s\<lparr>active := p'\<lparr>px := px p' + dx, py := py p' + dy\<rparr>\<rparr>)
              else s\<lparr>active := p'\<lparr>px := px p' + dx, py := py p' + dy\<rparr>\<rparr>)"
      using eq unfolding Some k by simp
    then show ?thesis unfolding f Some k using c by simp
  qed
  show ?thesis using r rot tail by blast
qed

theorem rotate_with_kick_witness:
  "wf_board (board example_state) \<and> piece_ok (active example_state) \<and>
   try_rotate_with_kick 7 True example_state =
     Some (True, example_state\<lparr>active := (Piece KJ)\<lparr>rot_index := 1,
                    shape := [[0,1,1],[0,1,0],[0,1,0]]\<rparr>\<rparr>)"
proof -
  let ?P = "(Piece KJ)\<lparr>rot_index := 1, shape := [[0,1,1],[0,1,0],[0,1,0]]\<rparr>"
  have w: "wf_board (board example_state)"
    using reachable_state_ok[OF reachable_example] by (simp add: state_ok_def)
  have p: "piece_ok (active example_state)"
    by (simp add: example_state_def piece_ok_Piece)
  have a: "active example_state = Piece KJ" by (simp add: example_state_def)
  have r: "rotate True (Piece KJ) = Some ?P"
    by (simp add: rotate_def Piece_def PIECES_KJ Let_def py_get_def py_index_def)
  have g: "get_cells ?P 0 0 = [(5, -2), (6, -2), (5, -1), (5, 0)]"
    by (simp add: get_cells_def Piece_def PIECES_KJ Let_def enumerate_simps COLS_def)
  have "list_ex (blocked (board example_state)) (get_cells ?P 0 0) = False"
    unfolding g by (simp add: blocked_def example_state_def COLS_def ROWS_def)
  then have c: "collision (board example_state) ?P 0 0 = Some False"
    using w by (simp add: collision_wf)
  have m: "?P\<lparr>px := px ?P + 0, py := py ?P + 0\<rparr> = ?P" by simp
  have g: "grounded example_state = False" by (simp add: example_state_def)
  show ?thesis
    using rotate_with_kick[OF w p, of True 7] w p c unfolding a r
    by (auto simp: m g)
qed

section \<open>The board changes only at lock time\<close>

text \<open>Claim C4. The board changes only when a piece is locked or lines are cleared: a
  horizontal move, \<open>soft_drop\<close>, \<open>try_rotate_with_kick\<close>, \<open>hold_action\<close>, the pause key
  and every \<open>tick\<close> that does not reach its call of \<open>lock_piece\<close> return a state with
  the same board.\<close>

theorem board_changes_only_at_lock:
  "(move dx now s = Some s' \<longrightarrow> board s' = board s) \<and>
   (soft_drop s = Some s' \<longrightarrow> board s' = board s) \<and>
   (try_rotate_with_kick now cw s = Some (r, s') \<longrightarrow> board s' = board s) \<and>
   (hold_action s = Some s' \<longrightarrow> board s' = board s) \<and>
   (tick now down s = Some s' \<and> \<not> tick_locks now down s \<longrightarrow> board s' = board s) \<and>
   board (toggle_pause s) = board s"
  using move_board soft_drop_board try_rotate_board hold_action_board tick_board
  by (auto simp: toggle_pause_def)

theorem board_changes_only_at_lock_witness:
  "soft_drop example_state =
     Some (example_state\<lparr>active := (Piece KJ)\<lparr>py := -1\<rparr>, score := 1\<rparr>) \<and>
   board (example_state\<lparr>active := (Piece KJ)\<lparr>py := -1\<rparr>, score := 1\<rparr>) = board example_state \<and>
   move (-1) 0 example_state = Some (example_state\<lparr>active := (Piece KJ)\<lparr>px := 3\<rparr>\<rparr>) \<and>
   board (example_state\<lparr>active := (Piece KJ)\<lparr>px := 3\<rparr>\<rparr>) = board example_state \<and>
   \<not> tick_locks 1000 False example_state \<and>
   tick 1000 False example_state =
     Some (example_state\<lparr>active := (Piece KJ)\<lparr>py := -1\<rparr>, last_fall := 1000\<rparr>) \<and>
   board (example_state\<lparr>active := (Piece KJ)\<lparr>py := -1\<rparr>, last_fall := 1000\<rparr>) = board example_state"
proof -
  have g: "get_cells (Piece KJ) xo yo = [(4 + xo, -2 + yo), (4 + xo, -1 + yo), (5 + xo, -1 + yo), (6 + xo, -1 + yo)]" for xo yo
    by (subst get_cells_shift) (simp add: get_cells_Piece)
  have p: "py (Piece KJ) = -2" "px (Piece KJ) = 4"
    by (simp_all add: Piece_def PIECES_KJ Let_def COLS_def)
  have c: "collision (board example_state) (active example_state) 0 1 = Some False"
    "collision (board example_state) (active example_state) (-1) 0 = Some False"
    by (simp_all add: collision_example active_example g)
  have sd: "soft_drop example_state =
     Some (example_state\<lparr>active := (Piece KJ)\<lparr>py := -1\<rparr>, score := 1\<rparr>)"
    using c by (simp add: soft_drop_def active_example p SOFT_DROP_SCORE_def) (simp add: example_state_def)
  have mv: "move (-1) 0 example_state = Some (example_state\<lparr>active := (Piece KJ)\<lparr>px := 3\<rparr>\<rparr>)"
    using c by (simp add: move_def active_example p Let_def) (simp add: example_state_def)
  have nl: "\<not> tick_locks 1000 False example_state"
    using c by (simp add: tick_locks_def)
  have tk: "tick 1000 False example_state =
     Some (example_state\<lparr>active := (Piece KJ)\<lparr>py := -1\<rparr>, last_fall := 1000\<rparr>)"
    using c by (simp add: tick_def active_example p Let_def) (simp add: example_state_def)
  show ?thesis
    using board_changes_only_at_lock[of "-1" 0 example_state "example_state\<lparr>active := (Piece KJ)\<lparr>px := 3\<rparr>\<rparr>"]
      board_changes_only_at_lock[of _ _ example_state "example_state\<lparr>active := (Piece KJ)\<lparr>py := -1\<rparr>, score := 1\<rparr>"]
      board_changes_only_at_lock[of _ 1000 example_state "example_state\<lparr>active := (Piece KJ)\<lparr>py := -1\<rparr>, last_fall := 1000\<rparr>" _ _ False]
      sd mv nl tk
    by blast
qed

section \<open>The hold swap is used once per spawn\<close>

lemma move_hold_used: "move dx now s = Some s' \<Longrightarrow> hold_used s' = hold_used s"
  by (auto simp: move_def Let_def split: bind_splits if_splits)

lemma soft_drop_hold_used: "soft_drop s = Some s' \<Longrightarrow> hold_used s' = hold_used s"
  by (auto simp: soft_drop_def split: bind_splits if_splits)

lemma try_rotate_hold_used:
  "try_rotate_with_kick now cw s = Some (r, s') \<Longrightarrow> hold_used s' = hold_used s"
  by (auto simp: try_rotate_with_kick_def Let_def split: bind_splits if_splits option.splits)

lemma tick_hold_used:
  assumes "tick now down s = Some s'" "\<not> tick_locks now down s"
  shows "hold_used s' = hold_used s"
  using assms
  by (auto simp: tick_def tick_locks_def Let_def split: bind_splits if_splits)

lemma hold_action_hold_used:
  assumes "hold_action s = Some s'"
  shows "hold_used s'"
proof (cases "hold_used s")
  case True
  then show ?thesis using assms by (simp add: hold_action_def)
next
  case False
  let ?s0 = "s\<lparr>hold_used := True, hold := Some (kind (active s))\<rparr>"
  obtain p s1 where sp: "(case hold s of
                  None \<Rightarrow> spawn_from_queue ?s0
                | Some temp \<Rightarrow> Some (Piece temp, ?s0)) = Some (p, s1)"
    using assms False by (auto simp: hold_action_def split: bind_splits)
  have "hold_used s1"
    using sp spawn_from_queue_frame[of ?s0 p s1] by (auto split: option.splits)
  then show ?thesis using assms False sp
    by (auto simp: hold_action_def Let_def split: bind_splits if_splits)
qed

lemma lock_piece_hold_used: "lock_piece s = Some s' \<Longrightarrow> \<not> hold_used s'"
  by (auto simp: lock_piece_def Let_def split: bind_splits if_splits)

text \<open>Claim C5. The hold swap is usable at most once per spawn. \<open>hold_action\<close> returns a
  state in which \<open>hold_used\<close> is set; a call made while \<open>hold_used\<close> is set returns
  the state unchanged; a horizontal move, \<open>soft_drop\<close>, \<open>try_rotate_with_kick\<close>, the
  pause key and every \<open>tick\<close> that does not reach its call of \<open>lock_piece\<close> leave
  \<open>hold_used\<close> as it is; and \<open>lock_piece\<close> clears it.\<close>

theorem hold_once_per_spawn:
  "(hold_action s = Some s' \<longrightarrow> hold_used s') \<and>
   (hold_used s \<longrightarrow> hold_action s = Some s) \<and>
   (move dx now s = Some s' \<longrightarrow> hold_used s' = hold_used s) \<and>
   (soft_drop s = Some s' \<longrightarrow> hold_used s' = hold_used s) \<and>
   (try_rotate_with_kick now cw s = Some (r, s') \<longrightarrow> hold_used s' = hold_used s) \<and>
   (tick now down s = Some s' \<and> \<not> tick_locks now down s \<longrightarrow> hold_used s' = hold_used s) \<and>
   hold_used (toggle_pause s) = hold_used s \<and>
   (lock_piece s = Some s' \<longrightarrow> \<not> hold_used s')"
proof -
  have "hold_used s \<longrightarrow> hold_action s = Some s" by (simp add: hold_action_def)
  then show ?thesis
    using move_hold_used soft_drop_hold_used try_rotate_hold_used tick_hold_used
      hold_action_hold_used lock_piece_hold_used
    by (auto simp: toggle_pause_def)
qed

theorem hold_once_per_spawn_witness:
  "hold_action example_state =
     Some (example_state\<lparr>bag := [], next_queue := [KO, KS, KT, KZ, KI], active := Piece KL,
             hold := Some KJ, hold_used := True\<rparr>) \<and>
   hold_used (example_state\<lparr>bag := [], next_queue := [KO, KS, KT, KZ, KI], active := Piece KL,
             hold := Some KJ, hold_used := True\<rparr>) \<and>
   hold_action (example_state\<lparr>bag := [], next_queue := [KO, KS, KT, KZ, KI], active := Piece KL,
             hold := Some KJ, hold_used := True\<rparr>) =
     Some (example_state\<lparr>bag := [], next_queue := [KO, KS, KT, KZ, KI], active := Piece KL,
             hold := Some KJ, hold_used := True\<rparr>)"
proof -
  let ?H = "example_state\<lparr>bag := [], next_queue := [KO, KS, KT, KZ, KI], active := Piece KL,
             hold := Some KJ, hold_used := True\<rparr>"
  show ?thesis
    using hold_once_per_spawn[of example_state ?H] hold_once_per_spawn[of ?H] hold_action_example
    by blast
qed

section \<open>The lock-delay reset counter\<close>


lemma reset_lock_timer_le: "lock_resets_left (reset_lock_timer now s) \<le> lock_resets_left s"
  by (simp add: reset_lock_timer_def)














section \<open>The counters never decrease, the fall interval does\<close>




section \<open>The level is the line count divided by ten\<close>

lemma clear_level:
  "level (clear_lines_and_score s) =
     (if lines (clear_lines_and_score s) = lines s then level s
      else lines (clear_lines_and_score s) div 10)"
  by (simp add: clear_lines_and_score_def Let_def)

lemma lock_piece_level:
  assumes "lock_piece s = Some s'" "level s = lines s div 10"
  shows "level s' = lines s' div 10"
proof -
  obtain b where b:
     "lines s' = lines (clear_lines_and_score (s\<lparr>board := b\<rparr>))"
     "level s' = level (clear_lines_and_score (s\<lparr>board := b\<rparr>))"
    using lock_piece_counters[OF assms(1)] by blast
  show ?thesis unfolding b using assms(2) by (simp add: clear_level)
qed

lemma tick_level:
  assumes "tick now down s = Some s'" "level s = lines s div 10"
  shows "level s' = lines s' div 10"
proof (cases "tick_locks now down s")
  case False
  then show ?thesis using assms
    by (auto simp: tick_def tick_locks_def Let_def split: bind_splits if_splits)
next
  case True
  let ?g = "if \<not> grounded s then s\<lparr>grounded := True, lock_start := Some now\<rparr> else s"
  from True assms obtain s1 where s1: "lock_piece ?g = Some s1" "s' = s1\<lparr>last_fall := now\<rparr>"
    by (auto simp: tick_def tick_locks_def Let_def split: bind_splits if_splits)
  have "level ?g = lines ?g div 10" using assms(2) by simp
  then show ?thesis using lock_piece_level[OF s1(1)] s1(2) by simp
qed

lemma hard_drop_level:
  assumes "hard_drop s = Some s'" "level s = lines s div 10"
  shows "level s' = lines s' div 10"
proof -
  obtain p d where "lock_piece (s\<lparr>active := p, score := score s + HARD_DROP_SCORE * d\<rparr>) = Some s'"
    using assms(1) by (auto simp: hard_drop_def split: bind_splits)
  then show ?thesis using lock_piece_level assms(2) by fastforce
qed

lemma step_level:
  assumes "step ev s = Some s'" "level s = lines s div 10"
  shows "level s' = lines s' div 10"
proof (cases ev)
  case (Tick now down)
  then show ?thesis using assms tick_level by simp
next
  case KeyHold
  then show ?thesis using assms hold_action_counters[of s s'] by simp
next
  case (KeyRotate cw now)
  then show ?thesis using assms counters_unchanged(2)[of now cw s _ s'] by auto
next
  case KeyHardDrop
  then show ?thesis using assms hard_drop_level by simp
next
  case KeySoftDrop
  then show ?thesis using assms counters_unchanged(3)[of s s'] by simp
next
  case (KeyLeft now)
  then show ?thesis using assms counters_unchanged(1)[of "-1" now s s'] by simp
next
  case (KeyRight now)
  then show ?thesis using assms counters_unchanged(1)[of 1 now s s'] by simp
next
  case KeyPause
  then show ?thesis using assms by (auto simp: toggle_pause_def)
next
  case (KeyRestart g now)
  then show ?thesis using assms GameState_form[of g now] by auto
qed

text \<open>Claim C8. The level is the line count divided by 10, rounded down: in the state
  that \<open>GameState\<close> builds, after every event on a state where it holds, and so in every
  reachable state. \<open>clear_lines_and_score\<close> recomputes the level from the new line
  count whenever it changes the line count.\<close>

theorem level_is_lines_div_10:
  "(GameState g now = Some s0 \<longrightarrow> lines s0 = 0 \<and> level s0 = lines s0 div 10) \<and>
   (level s = lines s div 10 \<and> step ev s = Some s' \<longrightarrow> level s' = lines s' div 10) \<and>
   (reachable t \<longrightarrow> level t = lines t div 10) \<and>
   level (clear_lines_and_score u) =
     (if lines (clear_lines_and_score u) = lines u then level u
      else lines (clear_lines_and_score u) div 10)"
proof -
  have a: "GameState g now = Some s0 \<longrightarrow> lines s0 = 0 \<and> level s0 = lines s0 div 10"
    using GameState_form[of g now] by auto
  have b: "reachable t \<longrightarrow> level t = lines t div 10"
    using reachable_state_ok[of t] by (simp add: state_ok_def)
  show ?thesis using a b step_level clear_level by blast
qed

theorem level_is_lines_div_10_witness:
  "GameState (\<lambda>_. 0) 0 = Some example_state \<and>
   lines example_state = 0 \<and> level example_state = 0 \<and>
   step KeySoftDrop example_state =
     Some (example_state\<lparr>active := (Piece KJ)\<lparr>py := -1\<rparr>, score := 1\<rparr>) \<and>
   level (example_state\<lparr>active := (Piece KJ)\<lparr>py := -1\<rparr>, score := 1\<rparr>) =
     lines (example_state\<lparr>active := (Piece KJ)\<lparr>py := -1\<rparr>, score := 1\<rparr>) div 10 \<and>
   reachable example_state \<and>
   lines (clear_lines_and_score full_row_state) = 10 \<and>
   level (clear_lines_and_score full_row_state) = 1"
proof -
  have l: "lines example_state = 0" "level example_state = 0" "lines full_row_state = 9"
    by (simp_all add: full_row_state_def example_state_def)
  have c: "lines (clear_lines_and_score full_row_state) = 10"
    by (simp add: clear_full_row)
  show ?thesis
    using level_is_lines_div_10[of "\<lambda>_. 0" 0 example_state example_state KeySoftDrop
        "example_state\<lparr>active := (Piece KJ)\<lparr>py := -1\<rparr>, score := 1\<rparr>" example_state full_row_state]
      GameState_example reachable_example soft_drop_example l c
    by simp
qed

section \<open>Clearing lines\<close>

lemma kept_rows:
  "filter (\<lambda>row. \<exists>cell \<in> set row. cell = None) b = filter (\<lambda>row. \<not> full_row row) b"
  by (rule filter_cong) (auto simp: full_row_def)

lemma cleared_count:
  assumes "wf_board b"
  shows "ROWS - int (length (filter (\<lambda>row. \<not> full_row row) b)) = int (length (filter full_row b))"
proof -
  have "length (filter full_row b) + length (filter (\<lambda>row. \<not> full_row row) b) = length b"
    by (rule sum_length_filter_compl)
  then show ?thesis using assms by (simp add: wf_board_def)
qed

text \<open>Claim C9. On a board of \<open>ROWS\<close> rows of \<open>COLS\<close> cells,
  \<open>clear_lines_and_score\<close> removes exactly the full rows (those in which every cell is
  non-empty), keeps the other rows in their order below as many new empty rows, so that
  the board keeps its shape. When \<open>cleared\<close> rows were full and \<open>cleared > 0\<close>, the score
  grows by \<open>SCORES.get(cleared, 0) * (level + 1)\<close> with the level from before the call
  (100, 300, 500, 800 for 1, 2, 3, 4 rows) and the line count by \<open>cleared\<close>. When no
  row is full the state is unchanged.\<close>

theorem clear_lines_effect:
  assumes "wf_board (board s)"
  shows
    "board (clear_lines_and_score s) =
       replicate (length (filter full_row (board s))) (replicate (nat COLS) None) @
       filter (\<lambda>row. \<not> full_row row) (board s) \<and>
     wf_board (board (clear_lines_and_score s)) \<and>
     (0 < length (filter full_row (board s)) \<longrightarrow>
        score (clear_lines_and_score s) =
          score s + SCORES_get (int (length (filter full_row (board s)))) 0 * (level s + 1) \<and>
        lines (clear_lines_and_score s) = lines s + int (length (filter full_row (board s)))) \<and>
     (length (filter full_row (board s)) = 0 \<longrightarrow> clear_lines_and_score s = s) \<and>
     SCORES_get 1 0 = 100 \<and> SCORES_get 2 0 = 300 \<and> SCORES_get 3 0 = 500 \<and>
     SCORES_get 4 0 = 800"
proof -
  let ?n = "length (filter full_row (board s))"
  let ?kept = "filter (\<lambda>row. \<not> full_row row) (board s)"
  have c: "ROWS - int (length ?kept) = int ?n" by (rule cleared_count[OF assms])
  have sc: "SCORES_get 1 0 = 100 \<and> SCORES_get 2 0 = 300 \<and> SCORES_get 3 0 = 500 \<and>
     SCORES_get 4 0 = 800"
    by (simp add: SCORES_get_def SCORES_def)
  show ?thesis
  proof (cases "?n = 0")
    case True
    then have "filter full_row (board s) = []" by simp
    then have "?kept = board s" by (simp add: filter_empty_conv)
    moreover have "clear_lines_and_score s = s"
      unfolding clear_lines_and_score_def kept_rows Let_def c using True by simp
    ultimately show ?thesis using True assms sc by simp
  next
    case False
    have "clear_lines_and_score s =
       s\<lparr>board := replicate ?n (replicate (nat COLS) None) @ ?kept,
         score := score s + SCORES_get (int ?n) 0 * (level s + 1),
         lines := lines s + int ?n,
         level := (lines s + int ?n) div 10,
         fall_ms := fall_interval ((lines s + int ?n) div 10)\<rparr>"
      unfolding clear_lines_and_score_def kept_rows Let_def c using False by simp
    then show ?thesis using False clear_wf[OF assms] sc by simp
  qed
qed

theorem clear_lines_effect_witness:
  "wf_board (board full_row_state) \<and>
   length (filter full_row (board full_row_state)) = 1 \<and>
   board (clear_lines_and_score full_row_state) = replicate 20 (replicate 10 None) \<and>
   score (clear_lines_and_score full_row_state) = score full_row_state + 100 * (level full_row_state + 1) \<and>
   lines (clear_lines_and_score full_row_state) = lines full_row_state + 1 \<and>
   wf_board (board example_state) \<and>
   length (filter full_row (board example_state)) = 0 \<and>
   clear_lines_and_score example_state = example_state"
proof -
  have w: "wf_board (board full_row_state)"
    by (simp add: full_row_state_def wf_board_def ROWS_def COLS_def)
  have n: "length (filter full_row (board full_row_state)) = 1"
    by (simp add: full_row_state_def full_row_def)
  have m: "length (filter full_row (board example_state)) = 0"
    by (simp add: example_state_def full_row_def)
  have b: "board (clear_lines_and_score full_row_state) = replicate 20 (replicate 10 None)"
    by (simp add: clear_full_row)
  show ?thesis
    using clear_lines_effect[OF w] clear_lines_effect[OF wf_example] w wf_example n m b
    by simp
qed

section \<open>Game over on a spawn collision\<close>







end
